theory Spec2Isabelle
  imports Complex_Main "HOL-Library.AList"
begin

section \<open>Python values shared by the embedded functions\<close>

text \<open>
  The key of the two accumulators of \<^verbatim>\<open>update_evidence\<close> is the string
  \<^verbatim>\<open>"%d|%d" % (idx, i)\<close>, decoded again by \<^verbatim>\<open>key.split('|')\<close> and \<^verbatim>\<open>int\<close>
  (main.py, lines 392 and 405-407). The encoding is injective on pairs of
  non-negative integers, and the embedding keeps the pair.
\<close>

type_synonym key = "nat \<times> nat"

datatype error =
    ValueError key
  | KeyError
  | IndexError
  | ZeroDivisionError
  | IllTyped

section \<open>update\_evidence (main.py, lines 310-420)\<close>

text \<open>
  \<^verbatim>\<open>Probability\<close> and \<^verbatim>\<open>Attention_Weight\<close> are dictionaries local to one
  pass; a Python dictionary iterates in insertion order, so each is a list
  of key and value in insertion order. \<^verbatim>\<open>Evidence_Label\<close> is the module-level
  dictionary from batch index to the list of labels of the batch.
  The scores are compared only, so they are values of any linear order.
\<close>

record ('p, 's) accumulators =
  Probability :: "(key \<times> 'p) list"
  Attention_Weight :: "(key \<times> ('s \<times> int)) list"
  Evidence_Label :: "nat \<rightharpoonup> int list"

text \<open>Lines 338-340: a batch index seen for the first time gets \<^verbatim>\<open>[-1] * batch_size\<close>.\<close>

definition init_Evidence_list ::
  "nat \<Rightarrow> nat \<Rightarrow> ('p, 's) accumulators \<Rightarrow> ('p, 's) accumulators" where
  "init_Evidence_list idx batch_size st =
     (case Evidence_Label st idx of
        None \<Rightarrow> st\<lparr>Evidence_Label := (Evidence_Label st)(idx \<mapsto> replicate batch_size (- 1))\<rparr>
      | Some _ \<Rightarrow> st)"

text \<open>
  Lines 392-397, the body of the loop over \<^verbatim>\<open>i\<close>: the membership test, the
  \<^verbatim>\<open>raise ValueError\<close>, and the two writes. The triple is
  \<^verbatim>\<open>(probs[i], attentions[0][i], attentions[1][i])\<close>.
\<close>

definition write_record ::
  "key \<Rightarrow> 'p \<times> 's \<times> int \<Rightarrow> ('p, 's) accumulators \<Rightarrow> error + ('p, 's) accumulators" where
  "write_record k out st =
     (if k \<in> set (map fst (Probability st)) \<or> k \<in> set (map fst (Attention_Weight st))
      then Inl (ValueError k)
      else Inr (st\<lparr>Probability := Probability st @ [(k, fst out)],
                   Attention_Weight := Attention_Weight st @ [(k, snd out)]\<rparr>))"

text \<open>
  Lines 391-397, \<^verbatim>\<open>for i in range(batch_size)\<close>. The model's outputs of one batch
  are one triple per example, so the batch size is the length of the list.
\<close>

fun write_batch ::
  "nat \<Rightarrow> nat \<Rightarrow> ('p \<times> 's \<times> int) list \<Rightarrow> ('p, 's) accumulators \<Rightarrow> error + ('p, 's) accumulators" where
  "write_batch idx i [] st = Inr st"
| "write_batch idx i (out # outs) st =
     (case write_record (idx, i) out st of
        Inl e \<Rightarrow> Inl e
      | Inr st' \<Rightarrow> write_batch idx (Suc i) outs st')"

text \<open>
  Lines 324-398, \<^verbatim>\<open>for idx, ex_with_doc in enumerate(data_loader)\<close>. Of the body,
  the label list of lines 338-340 and the writes of lines 391-397 touch the
  three dictionaries; the block on \<^verbatim>\<open>HasAnswer_Map\<close> is embedded on its own
  below, and the outputs of the model are the elements of \<open>data_loader\<close>.
\<close>

fun accumulate ::
  "nat \<Rightarrow> ('p \<times> 's \<times> int) list list \<Rightarrow> ('p, 's) accumulators \<Rightarrow> error + ('p, 's) accumulators" where
  "accumulate idx [] st = Inr st"
| "accumulate idx (b # bs) st =
     (case write_batch idx 0 b (init_Evidence_list idx (length b) st) of
        Inl e \<Rightarrow> Inl e
      | Inr st' \<Rightarrow> accumulate (Suc idx) bs st')"

text \<open>
  Line 399: the dictionary comprehension keeps the records whose index is not
  \<^verbatim>\<open>-1\<close>, in insertion order.
\<close>

definition evidence_scores_of :: "(key \<times> ('s \<times> int)) list \<Rightarrow> (key \<times> ('s \<times> int)) list" where
  "evidence_scores_of aw = filter (\<lambda>(k, attention). snd attention \<noteq> - 1) aw"

text \<open>
  Line 400: \<^verbatim>\<open>sorted(..., key=lambda x: x[1][0], reverse=True)\<close>. Python's sort is
  stable, and with \<^verbatim>\<open>reverse=True\<close> it reverses the list, sorts it stably in
  ascending order and reverses the result, so equal scores keep their order.
\<close>

definition sorted_reverse :: "(key \<times> ('s::linorder \<times> int)) list \<Rightarrow> (key \<times> ('s \<times> int)) list" where
  "sorted_reverse xs = rev (sort_key (\<lambda>x. fst (snd x)) (rev xs))"

text \<open>The variables the loop of lines 404-415 updates.\<close>

record ('p, 's) promotion =
  labels :: "nat \<rightharpoonup> int list"
  count :: nat
  label_prob :: "'p list"
  label_attention :: "'s list"

text \<open>
  Lines 404-415. \<^verbatim>\<open>continue\<close> is the recursive call on the unchanged state,
  \<^verbatim>\<open>break\<close> returns. A dictionary or list lookup that fails raises.
\<close>

fun promote ::
  "int \<Rightarrow> (key \<times> 'p) list \<Rightarrow> (key \<times> ('s \<times> int)) list \<Rightarrow> (key \<times> ('s \<times> int)) list
     \<Rightarrow> ('p, 's) promotion \<Rightarrow> error + ('p, 's) promotion" where
  "promote Top_k P AW [] st = Inr st"
| "promote Top_k P AW ((k, val) # rest) st =
     (case labels st (fst k) of
        None \<Rightarrow> Inl KeyError
      | Some l \<Rightarrow>
          if length l \<le> snd k then Inl IndexError
          else if l ! snd k \<noteq> - 1 then promote Top_k P AW rest st
          else
            (case map_of P k of
               None \<Rightarrow> Inl KeyError
             | Some p \<Rightarrow>
                 (case map_of AW k of
                    None \<Rightarrow> Inl KeyError
                  | Some a \<Rightarrow>
                      let st' = st\<lparr>labels := (labels st)(fst k \<mapsto> l[snd k := snd val]),
                                   count := count st + 1,
                                   label_prob := label_prob st @ [p],
                                   label_attention := label_attention st @ [fst a]\<rparr>
                      in if Top_k \<le> int (count st') then Inr st'
                         else promote Top_k P AW rest st')))"

text \<open>The whole pass: the accumulation, then lines 399-415.\<close>

definition update_evidence ::
  "int \<Rightarrow> ('p \<times> 's::linorder \<times> int) list list \<Rightarrow> (nat \<rightharpoonup> int list) \<Rightarrow> error + ('p, 's) promotion" where
  "update_evidence Top_k data_loader Evidence =
     (case accumulate 0 data_loader
             \<lparr>Probability = [], Attention_Weight = [], Evidence_Label = Evidence\<rparr> of
        Inl e \<Rightarrow> Inl e
      | Inr st \<Rightarrow>
          promote Top_k (Probability st) (Attention_Weight st)
            (sorted_reverse (evidence_scores_of (Attention_Weight st)))
            \<lparr>labels = Evidence_Label st, count = 0, label_prob = [], label_attention = []\<rparr>)"

subsection \<open>What one pass is expected to produce\<close>

text \<open>
  The records of a pass in visiting order: batch \<open>idx\<close> contributes the keys
  \<open>(idx, 0)\<close>, \<open>(idx, 1)\<close>, ... of its examples.
\<close>

definition batch_records :: "nat \<Rightarrow> nat \<Rightarrow> 'a list \<Rightarrow> (key \<times> 'a) list" where
  "batch_records idx i b = map (\<lambda>j. ((idx, i + j), b ! j)) [0..<length b]"

fun enumerate_records :: "nat \<Rightarrow> 'a list list \<Rightarrow> (key \<times> 'a) list" where
  "enumerate_records idx [] = []"
| "enumerate_records idx (b # bs) = batch_records idx 0 b @ enumerate_records (Suc idx) bs"

definition records_of :: "('p \<times> 's \<times> int) list list \<Rightarrow> (key \<times> ('s \<times> int)) list" where
  "records_of bs = map (\<lambda>r. (fst r, snd (snd r))) (enumerate_records 0 bs)"

definition probabilities_of :: "('p \<times> 's \<times> int) list list \<Rightarrow> (key \<times> 'p) list" where
  "probabilities_of bs = map (\<lambda>r. (fst r, fst (snd r))) (enumerate_records 0 bs)"

text \<open>The label store after every batch of the pass has been visited.\<close>

fun init_labels :: "nat \<Rightarrow> 'a list list \<Rightarrow> (nat \<rightharpoonup> int list) \<Rightarrow> (nat \<rightharpoonup> int list)" where
  "init_labels idx [] L = L"
| "init_labels idx (b # bs) L =
     init_labels (Suc idx) bs
       (case L idx of None \<Rightarrow> L(idx \<mapsto> replicate (length b) (- 1)) | Some _ \<Rightarrow> L)"

text \<open>
  A label list loaded from an earlier round covers the examples of its batch;
  a shorter one makes line 408 raise \<^verbatim>\<open>IndexError\<close>.
\<close>

definition labels_fit :: "'a list list \<Rightarrow> (nat \<rightharpoonup> int list) \<Rightarrow> bool" where
  "labels_fit bs L =
     (\<forall>n < length bs. case L n of None \<Rightarrow> True | Some l \<Rightarrow> length (bs ! n) \<le> length l)"

text \<open>The example of a key has a label slot, and the slot still holds \<^verbatim>\<open>-1\<close>.\<close>

definition slot :: "(nat \<rightharpoonup> int list) \<Rightarrow> key \<Rightarrow> bool" where
  "slot L k = (case L (fst k) of None \<Rightarrow> False | Some l \<Rightarrow> snd k < length l)"

definition unlabeled :: "(nat \<rightharpoonup> int list) \<Rightarrow> key \<Rightarrow> bool" where
  "unlabeled L k =
     (case L (fst k) of None \<Rightarrow> False | Some l \<Rightarrow> snd k < length l \<and> l ! snd k = - 1)"

definition set_label :: "(nat \<rightharpoonup> int list) \<Rightarrow> key \<Rightarrow> int \<Rightarrow> (nat \<rightharpoonup> int list)" where
  "set_label L k d = (case L (fst k) of None \<Rightarrow> L | Some l \<Rightarrow> L(fst k \<mapsto> l[snd k := d]))"

text \<open>
  The eligible records: those with an index other than \<^verbatim>\<open>-1\<close> whose example is
  unlabeled; \<open>ranked\<close> lists them by descending score.
\<close>

definition eligible ::
  "(nat \<rightharpoonup> int list) \<Rightarrow> (key \<times> ('s \<times> int)) list \<Rightarrow> (key \<times> ('s \<times> int)) list" where
  "eligible L rs = filter (\<lambda>r. unlabeled L (fst r)) rs"

definition ranked ::
  "('p \<times> 's::linorder \<times> int) list list \<Rightarrow> (nat \<rightharpoonup> int list) \<Rightarrow> (key \<times> ('s \<times> int)) list" where
  "ranked bs L = eligible (init_labels 0 bs L) (sorted_reverse (evidence_scores_of (records_of bs)))"

section \<open>has\_answer (main.py, lines 526-558)\<close>

text \<open>
  \<^verbatim>\<open>normalize\<close>, the tokenizer \<^verbatim>\<open>PROCESS_TOK\<close> and the \<^verbatim>\<open>regex\<close> module are imported
  from outside the file: \<open>tokenize_words s\<close> stands for
  \<^verbatim>\<open>PROCESS_TOK.tokenize(normalize(s)).words(uncased=True)\<close>, \<open>re_compile\<close> for
  \<^verbatim>\<open>re.compile(_, flags=re.IGNORECASE + re.UNICODE)\<close> (\<open>None\<close> when it raises) and
  \<open>re_findall\<close> for \<^verbatim>\<open>findall\<close>, whose items are strings when the pattern has one
  group and tuples of strings when it has more.
\<close>

datatype fmatch = Group string | Groups "string list"

record 'rx services =
  tokenize_words :: "string \<Rightarrow> string list"
  re_compile :: "string \<Rightarrow> 'rx option"
  re_findall :: "'rx \<Rightarrow> string \<Rightarrow> fmatch list"

text \<open>
  The field \<^verbatim>\<open>'answer'\<close> of an example is a list of token lists, and under
  CuratedTrec a list of pattern strings.
\<close>

datatype answer = Answers "string list list" | Patterns "string list"

text \<open>\<^verbatim>\<open>str.lower\<close> on ASCII text, and \<^verbatim>\<open>" ".join\<close>.\<close>

definition lower_char :: "char \<Rightarrow> char" where
  "lower_char c =
     (case map_of (zip ''ABCDEFGHIJKLMNOPQRSTUVWXYZ'' ''abcdefghijklmnopqrstuvwxyz'') c of
        None \<Rightarrow> c
      | Some d \<Rightarrow> d)"

definition lower :: "string \<Rightarrow> string" where
  "lower s = map lower_char s"

fun join_sp :: "string list \<Rightarrow> string" where
  "join_sp [] = []"
| "join_sp [w] = w"
| "join_sp (w # v # ws) = w @ '' '' @ join_sp (v # ws)"

text \<open>
  Lines 543-545 and 552-554: \<^verbatim>\<open>range(0, len(text) - len(single_answer) + 1)\<close> is
  empty when the answer is longer than the text, as the truncating subtraction
  makes it here; \<^verbatim>\<open>text[i: i + n]\<close> is \<open>take n (drop i text)\<close>.
\<close>

definition find_windows ::
  "string list \<Rightarrow> string list \<Rightarrow> (int \<times> int) list \<Rightarrow> (int \<times> int) list" where
  "find_windows single_answer text res_list =
     fold (\<lambda>i res.
             if single_answer = take (length single_answer) (drop i text)
             then res @ [(int i, int i + int (length single_answer) - 1)]
             else res)
          [0..<length text + 1 - length single_answer] res_list"

text \<open>
  \<^verbatim>\<open>a[0]\<close> on an item of \<^verbatim>\<open>findall\<close>: the first character of a string, the first
  group of a tuple.
\<close>

definition first_item :: "fmatch \<Rightarrow> error + string" where
  "first_item a =
     (case a of
        Group s \<Rightarrow> (case s of [] \<Rightarrow> Inl IndexError | c # _ \<Rightarrow> Inr [c])
      | Groups gs \<Rightarrow> (case gs of [] \<Rightarrow> Inl IndexError | g # _ \<Rightarrow> Inr g))"

text \<open>Lines 539-545, \<^verbatim>\<open>for a in answer_new\<close>.\<close>

fun regex_loop ::
  "'rx services \<Rightarrow> string list \<Rightarrow> fmatch list \<Rightarrow> (int \<times> int) list \<Rightarrow> error + (int \<times> int) list" where
  "regex_loop sv text [] res_list = Inr res_list"
| "regex_loop sv text (a # rest) res_list =
     (case first_item a of
        Inl e \<Rightarrow> Inl e
      | Inr s \<Rightarrow> regex_loop sv text rest (find_windows (tokenize_words sv s) text res_list))"

text \<open>
  The bare \<^verbatim>\<open>except\<close> of lines 533-536 encloses \<^verbatim>\<open>answer[0]\<close> as well as the call
  of \<^verbatim>\<open>re.compile\<close>. The data never pairs token lists with CuratedTrec or
  patterns with another dataset; the embedding marks both \<open>IllTyped\<close>.
\<close>

definition has_answer ::
  "'rx services \<Rightarrow> string \<Rightarrow> answer \<Rightarrow> string list \<Rightarrow> error + (bool \<times> (int \<times> int) list)" where
  "has_answer sv dataset answer t =
     (let text = map lower t in
      if dataset = ''CuratedTrec'' then
        (case answer of
           Answers _ \<Rightarrow> Inl IllTyped
         | Patterns ps \<Rightarrow>
             (case ps of
                [] \<Rightarrow> Inr (False, [])
              | p # _ \<Rightarrow>
                  (case re_compile sv (''('' @ p @ '')'') of
                     None \<Rightarrow> Inr (False, [])
                   | Some ans_regex \<Rightarrow>
                       (case regex_loop sv text (re_findall sv ans_regex (join_sp text)) [] of
                          Inl e \<Rightarrow> Inl e
                        | Inr res_list \<Rightarrow>
                            if 0 < length res_list then Inr (True, res_list)
                            else Inr (False, res_list)))))
      else
        (case answer of
           Patterns _ \<Rightarrow> Inl IllTyped
         | Answers as \<Rightarrow>
             (let res_list =
                    fold (\<lambda>a res. find_windows (tokenize_words sv (lower (join_sp a))) text res) as []
              in if 0 < length res_list then Inr (True, res_list) else Inr (False, res_list))))"


section \<open>The HasAnswer\_Map block (main.py, lines 226-235 and 327-336)\<close>

text \<open>
  \<^verbatim>\<open>train\<close>, \<^verbatim>\<open>update_evidence\<close> and \<^verbatim>\<open>pretrain_reader\<close> hold the same block;
  that of \<^verbatim>\<open>pretrain_selector\<close> keeps the flag of each cell only and, like them,
  writes when the index is absent.
  \<^verbatim>\<open>HasAnswer_Map\<close> is the module-level dictionary; \<open>matcher_calls\<close> counts the
  calls of \<^verbatim>\<open>has_answer\<close> and is not part of the program.
\<close>

type_synonym has_answer_record = "bool \<times> (int \<times> int) list"

record cache =
  HasAnswer_Map :: "nat \<rightharpoonup> has_answer_record list list"
  matcher_calls :: nat

record 'rx inputs =
  services :: "'rx services"
  dataset :: string
  num_docs :: nat
  exs_with_doc :: "answer list"
  docs_by_question :: "string list list list"

definition list_index :: "'a list \<Rightarrow> nat \<Rightarrow> error + 'a" where
  "list_index xs n = (if n < length xs then Inr (xs ! n) else Inl IndexError)"

text \<open>The argument of \<^verbatim>\<open>HasAnswer.append\<close>, lines 231 and 332.\<close>

definition HasAnswer_cell :: "'rx inputs \<Rightarrow> nat \<Rightarrow> nat \<Rightarrow> error + has_answer_record" where
  "HasAnswer_cell inp idx_doc ex =
     (case list_index (exs_with_doc inp) ex of
        Inl e \<Rightarrow> Inl e
      | Inr answer \<Rightarrow>
          (case list_index (docs_by_question inp) ex of
             Inl e \<Rightarrow> Inl e
           | Inr docs \<Rightarrow>
               if length docs = 0 then Inl ZeroDivisionError
               else has_answer (services inp) (dataset inp) answer (docs ! (idx_doc mod length docs))))"

text \<open>
  \<^verbatim>\<open>for i in range(batch_size)\<close> over \<^verbatim>\<open>ex_id[i]\<close>, and
  \<^verbatim>\<open>for idx_doc in range(0, vector.num_docs)\<close>.
\<close>

fun HasAnswer_row ::
  "'rx inputs \<Rightarrow> nat \<Rightarrow> nat list \<Rightarrow> has_answer_record list \<Rightarrow> nat
     \<Rightarrow> error + (has_answer_record list \<times> nat)" where
  "HasAnswer_row inp idx_doc [] HasAnswer calls = Inr (HasAnswer, calls)"
| "HasAnswer_row inp idx_doc (ex # ex_id) HasAnswer calls =
     (case HasAnswer_cell inp idx_doc ex of
        Inl e \<Rightarrow> Inl e
      | Inr r \<Rightarrow> HasAnswer_row inp idx_doc ex_id (HasAnswer @ [r]) (Suc calls))"

fun HasAnswer_rows ::
  "'rx inputs \<Rightarrow> nat list \<Rightarrow> nat list \<Rightarrow> has_answer_record list list \<Rightarrow> nat
     \<Rightarrow> error + (has_answer_record list list \<times> nat)" where
  "HasAnswer_rows inp [] ex_id HasAnswer_list calls = Inr (HasAnswer_list, calls)"
| "HasAnswer_rows inp (idx_doc # ds) ex_id HasAnswer_list calls =
     (case HasAnswer_row inp idx_doc ex_id [] calls of
        Inl e \<Rightarrow> Inl e
      | Inr (HasAnswer, calls') \<Rightarrow> HasAnswer_rows inp ds ex_id (HasAnswer_list @ [HasAnswer]) calls')"

definition HasAnswer_block ::
  "'rx inputs \<Rightarrow> nat \<Rightarrow> nat list \<Rightarrow> cache \<Rightarrow> error + (has_answer_record list list \<times> cache)" where
  "HasAnswer_block inp idx ex_id st =
     (case HasAnswer_Map st idx of
        None \<Rightarrow>
          (case HasAnswer_rows inp [0..<num_docs inp] ex_id [] (matcher_calls st) of
             Inl e \<Rightarrow> Inl e
           | Inr (HasAnswer_list, calls) \<Rightarrow>
               Inr (HasAnswer_list,
                    st\<lparr>HasAnswer_Map := (HasAnswer_Map st)(idx \<mapsto> HasAnswer_list),
                       matcher_calls := calls\<rparr>))
      | Some HasAnswer_list \<Rightarrow> Inr (HasAnswer_list, st))"

text \<open>
  Any number of later visits, of any pass: each is a batch index with the
  example ids of its batch, under the inputs of that pass.
\<close>

fun HasAnswer_visits :: "('rx inputs \<times> nat \<times> nat list) list \<Rightarrow> cache \<Rightarrow> error + cache" where
  "HasAnswer_visits [] st = Inr st"
| "HasAnswer_visits (v # vs) st =
     (case HasAnswer_block (fst v) (fst (snd v)) (snd (snd v)) st of
        Inl e \<Rightarrow> Inl e
      | Inr r \<Rightarrow> HasAnswer_visits vs (snd r))"

section \<open>The vote of validate\_unofficial\_with\_doc (main.py, lines 609-644)\<close>

text \<open>
  \<^verbatim>\<open>scores[i]\<close> is touched by the iterations of example \<open>i\<close> only, so the
  embedding follows one example through the loops over the documents and the
  candidates. \<^verbatim>\<open>doc_text[j]\<close> accepts a negative index down to \<^verbatim>\<open>-len\<close>.
  The scores are real numbers: the rounding of the sums is not modelled.
\<close>

definition py_index :: "'a list \<Rightarrow> int \<Rightarrow> error + 'a" where
  "py_index xs j =
     (let n = int (length xs); j' = (if j < 0 then n + j else j)
      in if 0 \<le> j' \<and> j' < n then Inr (xs ! nat j') else Inl IndexError)"

text \<open>Lines 618-620, \<^verbatim>\<open>for j in range(pred_s[i][k], pred_e[i][k]+1)\<close>.\<close>

fun span_tokens :: "string list \<Rightarrow> int list \<Rightarrow> string list \<Rightarrow> error + string list" where
  "span_tokens doc_text [] prediction = Inr prediction"
| "span_tokens doc_text (j # js) prediction =
     (case py_index doc_text j of
        Inl e \<Rightarrow> Inl e
      | Inr w \<Rightarrow> span_tokens doc_text js (prediction @ [w]))"

type_synonym scores = "(string \<times> real) list"

text \<open>
  Lines 617-626, the body of the loop over \<open>k\<close>: the candidate is
  \<^verbatim>\<open>(pred_s[i][k], pred_e[i][k], pred_score[i][k])\<close> and \<open>doc_score\<close> is
  \<^verbatim>\<open>scores_doc_num[i][idx_doc]\<close>. \<^verbatim>\<open>except: pass\<close> leaves the dictionary as it was.
  A dictionary keeps a key at the place of its first insertion.
\<close>

definition vote :: "string list \<Rightarrow> real \<Rightarrow> int \<times> int \<times> real \<Rightarrow> scores \<Rightarrow> scores" where
  "vote doc_text doc_score cand scores =
     (case span_tokens doc_text [fst cand..fst (snd cand)] [] of
        Inl _ \<Rightarrow> scores
      | Inr toks \<Rightarrow>
          (let prediction = lower (join_sp toks);
               scores1 = (if prediction \<notin> set (map fst scores)
                          then AList.update prediction 0 scores else scores)
           in case map_of scores1 prediction of
                None \<Rightarrow> scores1
              | Some v \<Rightarrow> AList.update prediction (v + snd (snd cand) * doc_score) scores1))"

text \<open>
  \<^verbatim>\<open>for k in range(10)\<close>: an index past the predictions of the example raises
  inside the \<^verbatim>\<open>try\<close>, so the loop runs over the first ten candidates there are.
\<close>

definition vote_doc :: "string list \<times> real \<times> (int \<times> int \<times> real) list \<Rightarrow> scores \<Rightarrow> scores" where
  "vote_doc d scores = fold (vote (fst d) (fst (snd d))) (take 10 (snd (snd d))) scores"

definition vote_example :: "(string list \<times> real \<times> (int \<times> int \<times> real) list) list \<Rightarrow> scores" where
  "vote_example docs = fold vote_doc docs []"

text \<open>Lines 639-644.\<close>

definition best_prediction :: "scores \<Rightarrow> string" where
  "best_prediction scores =
     snd (fold (\<lambda>kv best. if fst best < snd kv then (snd kv, fst kv) else best)
               scores (0, []))"

definition aggregate :: "(string list \<times> real \<times> (int \<times> int \<times> real) list) list \<Rightarrow> string" where
  "aggregate docs = best_prediction (vote_example docs)"

text \<open>
  The surface string of a candidate, when every index of it is in range, and
  the vote the specification gives a surface string: the sum over the
  candidates that have it.
\<close>

definition surface :: "string list \<Rightarrow> int \<times> int \<times> real \<Rightarrow> string option" where
  "surface doc_text cand =
     (case span_tokens doc_text [fst cand..fst (snd cand)] [] of
        Inl _ \<Rightarrow> None
      | Inr toks \<Rightarrow> Some (lower (join_sp toks)))"

definition doc_votes :: "string list \<times> real \<times> (int \<times> int \<times> real) list \<Rightarrow> (string \<times> real) list" where
  "doc_votes d =
     concat (map (\<lambda>c. case surface (fst d) c of
                         None \<Rightarrow> []
                       | Some s \<Rightarrow> [(s, snd (snd c) * fst (snd d))])
                 (take 10 (snd (snd d))))"

definition candidate_votes ::
  "(string list \<times> real \<times> (int \<times> int \<times> real) list) list \<Rightarrow> (string \<times> real) list" where
  "candidate_votes docs = concat (map doc_votes docs)"

definition total_vote :: "(string \<times> real) list \<Rightarrow> string \<Rightarrow> real" where
  "total_vote cv s = sum_list (map snd (filter (\<lambda>p. fst p = s) cv))"

text \<open>
  Adding a vote to the bucket of a surface string, and the order in which the
  strings of a list are first seen.
\<close>

definition add_vote :: "string \<times> real \<Rightarrow> scores \<Rightarrow> scores" where
  "add_vote p scores =
     AList.update (fst p) ((case map_of scores (fst p) of None \<Rightarrow> 0 | Some v \<Rightarrow> v) + snd p) scores"

fun first_seen :: "'a list \<Rightarrow> 'a list" where
  "first_seen [] = []"
| "first_seen (x # xs) = x # filter (\<lambda>y. y \<noteq> x) (first_seen xs)"

section \<open>Properties of update\_evidence\<close>

lemma unlabeled_set_label_other:
  "k' \<noteq> k \<Longrightarrow> unlabeled (set_label L k d) k' = unlabeled L k'"
  by (cases k; cases k') (auto simp: unlabeled_def set_label_def split: option.splits)

lemma slot_set_label: "slot (set_label L k d) k' = slot L k'"
  by (cases k; cases k') (auto simp: slot_def set_label_def split: option.splits)

lemma eligible_set_label:
  assumes "k \<notin> fst ` set rs"
  shows "eligible (set_label L k d) rs = eligible L rs"
proof -
  have "\<And>r. r \<in> set rs \<Longrightarrow> fst r \<noteq> k" using assms by force
  then show ?thesis
    unfolding eligible_def by (intro filter_cong refl) (simp add: unlabeled_set_label_other)
qed

lemma promote_spec:
  assumes "distinct (map fst rs)"
    and "\<forall>r \<in> set rs. slot (labels st) (fst r) \<and> map_of P (fst r) \<noteq> None \<and> map_of AW (fst r) \<noteq> None"
  shows "promote Top_k P AW rs st =
     (let chosen = take (max 1 (nat (Top_k - int (count st)))) (eligible (labels st) rs)
      in Inr (st\<lparr>labels := fold (\<lambda>r L. set_label L (fst r) (snd (snd r))) chosen (labels st),
                 count := count st + length chosen,
                 label_prob := label_prob st @ map (\<lambda>r. the (map_of P (fst r))) chosen,
                 label_attention := label_attention st @ map (\<lambda>r. fst (the (map_of AW (fst r)))) chosen\<rparr>))"
  using assms
proof (induction rs arbitrary: st)
  case Nil
  then show ?case by (simp add: eligible_def)
next
  case (Cons r rs)
  obtain k val where r: "r = (k, val)" by (cases r)
  from Cons.prems r obtain l p a where l: "labels st (fst k) = Some l" "snd k < length l"
    and p: "map_of P k = Some p" and a: "map_of AW k = Some a"
    by (auto simp: slot_def split: option.splits)
  have dist: "distinct (map fst rs)" and notin: "k \<notin> fst ` set rs"
    using Cons.prems r by auto
  show ?case
  proof (cases "l ! snd k = - 1")
    case False
    then have ne: "\<not> unlabeled (labels st) k" using l by (simp add: unlabeled_def)
    have "promote Top_k P AW (r # rs) st = promote Top_k P AW rs st"
      using l False r by simp
    moreover have "eligible (labels st) (r # rs) = eligible (labels st) rs"
      using ne r by (simp add: eligible_def)
    ultimately show ?thesis using Cons.IH[of st] Cons.prems dist by simp
  next
    case True
    then have el: "unlabeled (labels st) k" using l by (simp add: unlabeled_def)
    define st' where "st' = st\<lparr>labels := (labels st)(fst k \<mapsto> l[snd k := snd val]),
                                   count := count st + 1,
                                   label_prob := label_prob st @ [p],
                                   label_attention := label_attention st @ [fst a]\<rparr>"
    have lab: "labels st' = set_label (labels st) k (snd val)"
      using l by (simp add: st'_def set_label_def)
    have elig: "eligible (labels st) (r # rs) = r # eligible (labels st) rs"
      using el r by (simp add: eligible_def)
    have elig': "eligible (labels st') rs = eligible (labels st) rs"
      unfolding lab using notin by (rule eligible_set_label)
    show ?thesis
    proof (cases "Top_k \<le> int (count st) + 1")
      case stop: True
      then have "promote Top_k P AW (r # rs) st = Inr st'"
        using l True p a r by (simp add: st'_def Let_def)
      moreover have "max 1 (nat (Top_k - int (count st))) = 1" using stop by simp
      ultimately show ?thesis
        using elig p a r lab by (simp add: st'_def Let_def)
    next
      case go: False
      then have step: "promote Top_k P AW (r # rs) st = promote Top_k P AW rs st'"
        using l True p a r by (simp add: st'_def Let_def)
      have pre: "\<forall>r \<in> set rs. slot (labels st') (fst r) \<and> map_of P (fst r) \<noteq> None \<and> map_of AW (fst r) \<noteq> None"
        using Cons.prems(2) by (simp add: lab slot_set_label)
      have n: "max 1 (nat (Top_k - int (count st))) = Suc (max 1 (nat (Top_k - int (count st'))))"
        using go by (simp add: st'_def) 
      show ?thesis
        unfolding step Cons.IH[OF dist pre] n elig elig'
        using p a r lab by (simp add: st'_def Let_def)
    qed
  qed
qed

lemma batch_records_Cons:
  "batch_records idx i (out # outs) = ((idx, i), out) # batch_records idx (Suc i) outs"
proof -
  have "[0..<length (out # outs)] = 0 # map Suc [0..<length outs]"
    by (simp add: upt_conv_Cons map_Suc_upt del: upt_Suc)
  then show ?thesis by (simp add: batch_records_def o_def del: upt_Suc)
qed

lemma batch_records_Nil: "batch_records idx i [] = []"
  by (simp add: batch_records_def)

lemma write_batch_spec:
  assumes "map fst (Probability st) = map fst (Attention_Weight st)"
    and "\<forall>k \<in> set (map fst (Attention_Weight st)). fst k = idx \<longrightarrow> snd k < i"
  shows "write_batch idx i outs st =
     Inr (st\<lparr>Probability := Probability st @ map (\<lambda>r. (fst r, fst (snd r))) (batch_records idx i outs),
              Attention_Weight := Attention_Weight st @ map (\<lambda>r. (fst r, snd (snd r))) (batch_records idx i outs)\<rparr>)"
  using assms
proof (induction outs arbitrary: i st)
  case Nil
  then show ?case by (simp add: batch_records_Nil)
next
  case (Cons out outs)
  have fresh: "(idx, i) \<notin> set (map fst (Probability st))" "(idx, i) \<notin> set (map fst (Attention_Weight st))"
    using Cons.prems by force+
  define st' where "st' = st\<lparr>Probability := Probability st @ [((idx, i), fst out)],
                   Attention_Weight := Attention_Weight st @ [((idx, i), snd out)]\<rparr>"
  have w: "write_record (idx, i) out st = Inr st'"
    using fresh by (simp add: write_record_def st'_def)
  have p1: "map fst (Probability st') = map fst (Attention_Weight st')"
    using Cons.prems(1) by (simp add: st'_def)
  have p2: "\<forall>k \<in> set (map fst (Attention_Weight st')). fst k = idx \<longrightarrow> snd k < Suc i"
    using Cons.prems(2) by (auto simp: st'_def less_Suc_eq)
  show ?case
    unfolding batch_records_Cons using w Cons.IH[OF p1 p2] by (simp add: st'_def)
qed

lemma batch_records_keys: "map fst (batch_records idx i b) = map (\<lambda>j. (idx, i + j)) [0..<length b]"
  by (simp add: batch_records_def o_def)

lemma accumulate_spec:
  assumes "map fst (Probability st) = map fst (Attention_Weight st)"
    and "\<forall>k \<in> set (map fst (Attention_Weight st)). fst k < idx"
  shows "accumulate idx bs st =
     Inr (st\<lparr>Probability := Probability st @ map (\<lambda>r. (fst r, fst (snd r))) (enumerate_records idx bs),
              Attention_Weight := Attention_Weight st @ map (\<lambda>r. (fst r, snd (snd r))) (enumerate_records idx bs),
              Evidence_Label := init_labels idx bs (Evidence_Label st)\<rparr>)"
  using assms
proof (induction bs arbitrary: idx st)
  case Nil
  then show ?case by simp
next
  case (Cons b bs)
  define st0 where "st0 = init_Evidence_list idx (length b) st"
  have acc0: "Probability st0 = Probability st" "Attention_Weight st0 = Attention_Weight st"
    by (simp_all add: st0_def init_Evidence_list_def split: option.splits)
  have lab0: "Evidence_Label st0 =
      (case Evidence_Label st idx of None \<Rightarrow> (Evidence_Label st)(idx \<mapsto> replicate (length b) (- 1)) | Some _ \<Rightarrow> Evidence_Label st)"
    by (simp add: st0_def init_Evidence_list_def split: option.splits)
  define st1 where "st1 = st0\<lparr>Probability := Probability st0 @ map (\<lambda>r. (fst r, fst (snd r))) (batch_records idx 0 b),
              Attention_Weight := Attention_Weight st0 @ map (\<lambda>r. (fst r, snd (snd r))) (batch_records idx 0 b)\<rparr>"
  have "\<forall>k \<in> set (map fst (Attention_Weight st0)). fst k = idx \<longrightarrow> snd k < 0"
    using Cons.prems(2) by (auto simp: acc0)
  then have wb: "write_batch idx 0 b st0 = Inr st1"
    unfolding st1_def using Cons.prems(1) by (intro write_batch_spec) (simp add: acc0)
  have p1: "map fst (Probability st1) = map fst (Attention_Weight st1)"
    using Cons.prems(1) by (simp add: st1_def acc0 o_def)
  have p2: "\<forall>k \<in> set (map fst (Attention_Weight st1)). fst k < Suc idx"
    using Cons.prems(2) by (auto simp: st1_def acc0 less_Suc_eq batch_records_def)
  have "accumulate idx (b # bs) st = accumulate (Suc idx) bs st1"
    using wb by (simp add: st0_def)
  then show ?case
    unfolding Cons.IH[OF p1 p2]
    by (simp add: st1_def acc0 lab0)
qed

lemma enumerate_records_keys:
  "(n, j) \<in> fst ` set (enumerate_records idx bs) \<longleftrightarrow>
     idx \<le> n \<and> n < idx + length bs \<and> j < length (bs ! (n - idx))"
proof (induction bs arbitrary: idx)
  case Nil
  then show ?case by simp
next
  case (Cons b bs)
  have here: "(n, j) \<in> fst ` set (batch_records idx 0 b) \<longleftrightarrow> n = idx \<and> j < length b"
    by (auto simp: batch_records_def image_iff)
  show ?case
  proof (cases "n = idx")
    case True
    then show ?thesis using here Cons.IH[of "Suc idx"] by (simp add: image_Un)
  next
    case False
    then have "(n - idx) = Suc (n - Suc idx) \<or> n < idx" by arith
    then show ?thesis using False here Cons.IH[of "Suc idx"] by (auto simp: image_Un)
  qed
qed

lemma distinct_enumerate_records: "distinct (map fst (enumerate_records idx bs))"
proof (induction bs arbitrary: idx)
  case Nil
  then show ?case by simp
next
  case (Cons b bs)
  have d1: "distinct (map fst (batch_records idx 0 b))"
    by (simp add: batch_records_keys distinct_map inj_on_def)
  have "\<And>k. k \<in> fst ` set (batch_records idx 0 b) \<Longrightarrow> k \<notin> fst ` set (enumerate_records (Suc idx) bs)"
  proof -
    fix k assume "k \<in> fst ` set (batch_records idx 0 b)"
    then have "fst k = idx" by (auto simp: batch_records_def)
    then show "k \<notin> fst ` set (enumerate_records (Suc idx) bs)"
      using enumerate_records_keys[of "fst k" "snd k" "Suc idx" bs] by (cases k) simp
  qed
  then have d2: "set (map fst (batch_records idx 0 b)) \<inter> set (map fst (enumerate_records (Suc idx) bs)) = {}"
    by auto
  show ?case using Cons.IH[of "Suc idx"] d1 d2 by simp
qed

lemma init_labels_apply:
  "init_labels idx bs L n =
     (case L n of Some l \<Rightarrow> Some l
      | None \<Rightarrow> if idx \<le> n \<and> n < idx + length bs then Some (replicate (length (bs ! (n - idx))) (- 1)) else None)"
proof (induction bs arbitrary: idx L)
  case Nil
  then show ?case by (simp split: option.splits)
next
  case (Cons b bs)
  have "n \<noteq> idx \<Longrightarrow> idx \<le> n \<Longrightarrow> (n - idx) = Suc (n - Suc idx)" by arith
  then show ?case
    by (auto simp: Cons.IH split: option.splits)
qed

lemma set_sorted_reverse: "set (sorted_reverse xs) = set xs"
  by (simp add: sorted_reverse_def)

lemma distinct_sorted_reverse: "distinct (sorted_reverse xs) = distinct xs"
  by (simp add: sorted_reverse_def)

lemma length_sorted_reverse: "length (sorted_reverse xs) = length xs"
  by (simp add: sorted_reverse_def)

lemma filter_sorted_reverse: "filter Q (sorted_reverse xs) = sorted_reverse (filter Q xs)"
proof -
  have "filter Q (rev (sort_key (\<lambda>x. fst (snd x)) (rev xs)))
      = rev (filter Q (sort_key (\<lambda>x. fst (snd x)) (rev xs)))"
    by (simp only: rev_filter)
  also have "\<dots> = rev (sort_key (\<lambda>x. fst (snd x)) (filter Q (rev xs)))"
    by (simp only: filter_sort)
  also have "\<dots> = rev (sort_key (\<lambda>x. fst (snd x)) (rev (filter Q xs)))"
    by (simp only: rev_filter)
  finally show ?thesis by (simp only: sorted_reverse_def)
qed

lemma sorted_reverse_descending:
  "sorted_wrt (\<lambda>a b. fst (snd b) \<le> fst (snd a)) (sorted_reverse xs)"
proof -
  have "sorted (map (\<lambda>x. fst (snd x)) (sort_key (\<lambda>x. fst (snd x)) (rev xs)))"
    by (rule sorted_sort_key)
  then have "sorted_wrt (\<lambda>a b. fst (snd a) \<le> fst (snd b)) (sort_key (\<lambda>x. fst (snd x)) (rev xs))"
    by (simp add: sorted_wrt_map)
  then show ?thesis
    by (simp add: sorted_reverse_def sorted_wrt_rev)
qed

lemma sorted_reverse_stable:
  "filter (\<lambda>x. fst (snd x) = s) (sorted_reverse xs) = filter (\<lambda>x. fst (snd x) = s) xs"
proof -
  have "filter (\<lambda>x. fst (snd x) = s) (sort_key (\<lambda>x. fst (snd x)) (rev xs)) = filter (\<lambda>x. fst (snd x) = s) (rev xs)"
    by (rule sort_key_stable)
  then have "rev (filter (\<lambda>x. fst (snd x) = s) (sort_key (\<lambda>x. fst (snd x)) (rev xs)))
      = rev (filter (\<lambda>x. fst (snd x) = s) (rev xs))"
    by simp
  then show ?thesis
    by (simp only: sorted_reverse_def rev_filter rev_rev_ident)
qed

lemma distinct_keys_sorted_reverse:
  "distinct (map fst xs) \<Longrightarrow> distinct (map fst (sorted_reverse xs))"
  by (simp add: distinct_map distinct_sorted_reverse set_sorted_reverse)

lemma distinct_keys_filter: "distinct (map fst xs) \<Longrightarrow> distinct (map fst (filter Q xs))"
  by (simp add: distinct_map_filter)

lemma eligible_sorted_reverse: "eligible L (sorted_reverse xs) = sorted_reverse (eligible L xs)"
  by (simp add: eligible_def filter_sorted_reverse)

lemma keys_records_of: "map fst (records_of bs) = map fst (enumerate_records 0 bs)"
  by (simp add: records_of_def o_def)

lemma keys_probabilities_of: "map fst (probabilities_of bs) = map fst (enumerate_records 0 bs)"
  by (simp add: probabilities_of_def o_def)

lemma slot_init_labels:
  assumes "labels_fit bs L" and "k \<in> fst ` set (enumerate_records 0 bs)"
  shows "slot (init_labels 0 bs L) k"
proof -
  obtain n j where k: "k = (n, j)" by (cases k)
  from assms(2) have nj: "n < length bs" "j < length (bs ! n)"
    using enumerate_records_keys[of n j 0 bs] by (simp_all add: k)
  show ?thesis
  proof (cases "L n")
    case None
    then show ?thesis using nj by (simp add: slot_def k init_labels_apply)
  next
    case (Some l)
    then have "length (bs ! n) \<le> length l" using assms(1) nj by (auto simp: labels_fit_def)
    then show ?thesis using nj Some by (simp add: slot_def k init_labels_apply)
  qed
qed

lemma update_evidence_spec:
  assumes "labels_fit bs L"
  shows "update_evidence Top_k bs L =
     (let chosen = take (max 1 (nat Top_k)) (ranked bs L)
      in Inr \<lparr>labels = fold (\<lambda>r M. set_label M (fst r) (snd (snd r))) chosen (init_labels 0 bs L),
              count = length chosen,
              label_prob = map (\<lambda>r. the (map_of (probabilities_of bs) (fst r))) chosen,
              label_attention = map (\<lambda>r. fst (the (map_of (records_of bs) (fst r)))) chosen\<rparr>)"
proof -
  let ?st0 = "\<lparr>Probability = [], Attention_Weight = [], Evidence_Label = L\<rparr> :: ('a, 'b) accumulators"
  have acc: "accumulate 0 bs ?st0 =
      Inr \<lparr>Probability = probabilities_of bs, Attention_Weight = records_of bs,
           Evidence_Label = init_labels 0 bs L\<rparr>"
    by (subst accumulate_spec) (simp_all add: probabilities_of_def records_of_def)
  let ?rs = "sorted_reverse (evidence_scores_of (records_of bs))"
  have sub: "set ?rs \<subseteq> set (records_of bs)"
    by (auto simp: set_sorted_reverse evidence_scores_of_def)
  have d: "distinct (map fst ?rs)"
    unfolding evidence_scores_of_def
    by (intro distinct_keys_sorted_reverse distinct_keys_filter)
       (simp add: keys_records_of distinct_enumerate_records)
  have pre: "\<forall>r \<in> set ?rs. slot (init_labels 0 bs L) (fst r)
       \<and> map_of (probabilities_of bs) (fst r) \<noteq> None \<and> map_of (records_of bs) (fst r) \<noteq> None"
  proof
    fix r assume "r \<in> set ?rs"
    then have "r \<in> set (records_of bs)" using sub by auto
    then have k: "fst r \<in> fst ` set (enumerate_records 0 bs)"
      using keys_records_of[of bs] by (metis image_eqI list.set_map)
    have "fst r \<in> fst ` set (probabilities_of bs)" "fst r \<in> fst ` set (records_of bs)"
      using k keys_records_of[of bs] keys_probabilities_of[of bs] by (metis list.set_map)+
    then have "map_of (probabilities_of bs) (fst r) \<noteq> None" "map_of (records_of bs) (fst r) \<noteq> None"
      by (simp_all add: map_of_eq_None_iff)
    then show "slot (init_labels 0 bs L) (fst r)
       \<and> map_of (probabilities_of bs) (fst r) \<noteq> None \<and> map_of (records_of bs) (fst r) \<noteq> None"
      using slot_init_labels[OF assms k] by simp
  qed
  show ?thesis
    unfolding update_evidence_def acc
    by (simp add: promote_spec[OF d] pre ranked_def Let_def)
qed

lemma promote_keeps_label:
  assumes "promote Top_k P AW rs st = Inr st'"
    and "labels st n = Some l" and "j < length l" and "l ! j \<noteq> - 1"
  shows "\<exists>l'. labels st' n = Some l' \<and> length l' = length l \<and> l' ! j = l ! j"
  using assms
proof (induction rs arbitrary: st l)
  case Nil
  then show ?case by simp
next
  case (Cons r rs)
  obtain k val where r: "r = (k, val)" by (cases r)
  from Cons.prems(1) r obtain m where m: "labels st (fst k) = Some m" "snd k < length m"
    by (auto split: option.splits if_splits)
  show ?case
  proof (cases "m ! snd k = - 1")
    case False
    then have "promote Top_k P AW rs st = Inr st'"
      using Cons.prems(1) r m by simp
    then show ?thesis using Cons.IH Cons.prems by blast
  next
    case True
    from Cons.prems(1) r m True obtain p a where p: "map_of P k = Some p" and a: "map_of AW k = Some a"
      by (auto split: option.splits)
    define st1 where "st1 = st\<lparr>labels := (labels st)(fst k \<mapsto> m[snd k := snd val]),
                                   count := count st + 1,
                                   label_prob := label_prob st @ [p],
                                   label_attention := label_attention st @ [fst a]\<rparr>"
    have keep: "\<exists>l1. labels st1 n = Some l1 \<and> length l1 = length l \<and> l1 ! j = l ! j"
    proof (cases "fst k = n")
      case same: True
      then have "m = l" using m Cons.prems(2) by simp
      then have "snd k \<noteq> j" using True Cons.prems(4) by auto
      then show ?thesis using same \<open>m = l\<close> by (simp add: st1_def)
    next
      case False
      then show ?thesis using Cons.prems(2) by (simp add: st1_def)
    qed
    then obtain l1 where l1: "labels st1 n = Some l1" "length l1 = length l" "l1 ! j = l ! j"
      by blast
    have "st' = st1 \<or> promote Top_k P AW rs st1 = Inr st'"
      using Cons.prems(1) r m True p a by (auto simp: st1_def Let_def split: if_splits)
    then show ?thesis
    proof
      assume "st' = st1"
      then show ?thesis using l1 by simp
    next
      assume "promote Top_k P AW rs st1 = Inr st'"
      from Cons.IH[OF this l1(1)] l1 Cons.prems(3,4) show ?thesis by auto
    qed
  qed
qed

lemma promote_count_mono:
  "promote Top_k P AW rs st = Inr st' \<Longrightarrow> count st \<le> count st'"
proof (induction rs arbitrary: st)
  case Nil
  then show ?case by simp
next
  case (Cons r rs)
  obtain k val where r: "r = (k, val)" by (cases r)
  from Cons.prems r obtain m where m: "labels st (fst k) = Some m" "snd k < length m"
    by (auto split: option.splits if_splits)
  show ?case
  proof (cases "m ! snd k = - 1")
    case False
    then have "promote Top_k P AW rs st = Inr st'"
      using Cons.prems r m by simp
    then show ?thesis using Cons.IH by blast
  next
    case True
    from Cons.prems r m True obtain p a where p: "map_of P k = Some p" and a: "map_of AW k = Some a"
      by (auto split: option.splits)
    define st1 where "st1 = st\<lparr>labels := (labels st)(fst k \<mapsto> m[snd k := snd val]),
                                   count := count st + 1,
                                   label_prob := label_prob st @ [p],
                                   label_attention := label_attention st @ [fst a]\<rparr>"
    have "st' = st1 \<or> promote Top_k P AW rs st1 = Inr st'"
      using Cons.prems r m True p a by (auto simp: st1_def Let_def split: if_splits)
    then show ?thesis
    proof
      assume "st' = st1"
      then show ?thesis by (simp add: st1_def)
    next
      assume "promote Top_k P AW rs st1 = Inr st'"
      from Cons.IH[OF this] show ?thesis by (simp add: st1_def)
    qed
  qed
qed

lemma accumulate_from_empty:
  "accumulate 0 bs \<lparr>Probability = [], Attention_Weight = [], Evidence_Label = L\<rparr> =
      Inr \<lparr>Probability = probabilities_of bs, Attention_Weight = records_of bs,
           Evidence_Label = init_labels 0 bs L\<rparr>"
  by (subst accumulate_spec) (simp_all add: probabilities_of_def records_of_def)

lemma update_evidence_keeps_label:
  assumes "update_evidence Top_k bs L = Inr res"
    and "L n = Some l" and "j < length l" and "l ! j \<noteq> - 1"
  shows "\<exists>l'. labels res n = Some l' \<and> l' ! j = l ! j"
proof -
  have "init_labels 0 bs L n = Some l"
    using assms(2) by (simp add: init_labels_apply)
  moreover have "promote Top_k (probabilities_of bs) (records_of bs)
            (sorted_reverse (evidence_scores_of (records_of bs)))
            \<lparr>labels = init_labels 0 bs L, count = 0, label_prob = [], label_attention = []\<rparr> = Inr res"
    using assms(1) by (simp add: update_evidence_def accumulate_from_empty)
  ultimately show ?thesis
    using promote_keeps_label[OF _ _ assms(3,4)] by fastforce
qed

lemma length_eligible_sorted_reverse:
  "length (eligible L (sorted_reverse xs)) = length (eligible L xs)"
  by (simp add: eligible_sorted_reverse length_sorted_reverse)

lemma promotion_count:
  assumes "labels_fit bs L"
  shows "map_sum id count (update_evidence Top_k bs L) =
     Inr (min (max 1 (nat Top_k))
              (length (eligible (init_labels 0 bs L) (evidence_scores_of (records_of bs)))))"
  using assms
  by (simp add: update_evidence_spec Let_def ranked_def length_eligible_sorted_reverse min.commute)

lemma promotion_count_positive_budget:
  assumes "labels_fit bs L" and "1 \<le> Top_k"
  shows "map_sum id count (update_evidence Top_k bs L) =
     Inr (min (nat Top_k)
              (length (eligible (init_labels 0 bs L) (evidence_scores_of (records_of bs)))))"
proof -
  have "max 1 (nat Top_k) = nat Top_k" using assms(2) by simp
  then show ?thesis using promotion_count[OF assms(1), of Top_k] by simp
qed

lemma ranked_descending:
  "sorted_wrt (\<lambda>a b. fst (snd b) \<le> fst (snd a)) (ranked bs L)"
  unfolding ranked_def eligible_def
  by (intro sorted_wrt_filter sorted_reverse_descending)

lemma ranked_ties_in_visiting_order:
  "filter (\<lambda>x. fst (snd x) = s) (ranked bs L) =
   filter (\<lambda>x. fst (snd x) = s) (eligible (init_labels 0 bs L) (evidence_scores_of (records_of bs)))"
  by (simp add: ranked_def eligible_sorted_reverse sorted_reverse_stable)

lemma promoted_outrank_the_rest:
  assumes "a \<in> set (take n (ranked bs L))" and "b \<in> set (drop n (ranked bs L))"
  shows "fst (snd b) \<le> fst (snd a)"
proof -
  have "sorted_wrt (\<lambda>a b. fst (snd b) \<le> fst (snd a)) (take n (ranked bs L) @ drop n (ranked bs L))"
    using ranked_descending[of bs L] by simp
  then show ?thesis using assms unfolding sorted_wrt_append by blast
qed

lemma unlabeled_set_label_same:
  assumes "slot L k" and "d \<noteq> - 1"
  shows "\<not> unlabeled (set_label L k d) k"
  using assms by (auto simp: slot_def unlabeled_def set_label_def split: option.splits)

lemma fold_set_label_unlabeled:
  assumes "distinct (map fst rs)" and "\<forall>r \<in> set rs. snd (snd r) \<noteq> - 1 \<and> slot L (fst r)"
  shows "unlabeled (fold (\<lambda>r M. set_label M (fst r) (snd (snd r))) rs L) k
           \<longleftrightarrow> unlabeled L k \<and> k \<notin> fst ` set rs"
  using assms
proof (induction rs arbitrary: L)
  case Nil
  then show ?case by simp
next
  case (Cons r rs)
  let ?L = "set_label L (fst r) (snd (snd r))"
  have pre: "\<forall>r' \<in> set rs. snd (snd r') \<noteq> - 1 \<and> slot ?L (fst r')"
    using Cons.prems(2) by (simp add: slot_set_label)
  have d: "distinct (map fst rs)" using Cons.prems(1) by simp
  have one: "unlabeled ?L k \<longleftrightarrow> unlabeled L k \<and> k \<noteq> fst r"
  proof (cases "k = fst r")
    case True
    then show ?thesis using unlabeled_set_label_same[of L "fst r" "snd (snd r)"] Cons.prems(2) by simp
  next
    case False
    then show ?thesis by (simp add: unlabeled_set_label_other)
  qed
  show ?case using Cons.IH[OF d pre] one by auto
qed

lemma ranked_subset:
  "set (ranked bs L) \<subseteq> set (evidence_scores_of (records_of bs))"
  by (auto simp: ranked_def eligible_def set_sorted_reverse)

lemma still_unlabeled_after_pass:
  assumes "labels_fit bs L" and "update_evidence Top_k bs L = Inr res"
  shows "unlabeled (labels res) k \<longleftrightarrow>
           unlabeled (init_labels 0 bs L) k \<and> k \<notin> fst ` set (take (max 1 (nat Top_k)) (ranked bs L))"
proof -
  let ?chosen = "take (max 1 (nat Top_k)) (ranked bs L)"
  have lab: "labels res = fold (\<lambda>r M. set_label M (fst r) (snd (snd r))) ?chosen (init_labels 0 bs L)"
    using assms(2) unfolding update_evidence_spec[OF assms(1)] by (auto simp: Let_def)
  have "distinct (map fst (evidence_scores_of (records_of bs)))"
    unfolding evidence_scores_of_def
    by (intro distinct_keys_filter) (simp add: keys_records_of distinct_enumerate_records)
  then have "distinct (map fst (ranked bs L))"
    unfolding ranked_def eligible_def by (intro distinct_keys_filter distinct_keys_sorted_reverse)
  then have d: "distinct (map fst ?chosen)"
    by (simp add: take_map[symmetric] del: take_map)
  have pre: "\<forall>r \<in> set ?chosen. snd (snd r) \<noteq> - 1 \<and> slot (init_labels 0 bs L) (fst r)"
  proof
    fix r assume "r \<in> set ?chosen"
    then have r: "r \<in> set (ranked bs L)" by (rule in_set_takeD)
    then have e: "r \<in> set (evidence_scores_of (records_of bs))" using ranked_subset by blast
    then have "snd (snd r) \<noteq> - 1" by (auto simp: evidence_scores_of_def)
    moreover have "fst r \<in> fst ` set (enumerate_records 0 bs)"
      using e keys_records_of[of bs] by (metis (no_types, lifting) evidence_scores_of_def filter_is_subset image_eqI list.set_map subsetD)
    ultimately show "snd (snd r) \<noteq> - 1 \<and> slot (init_labels 0 bs L) (fst r)"
      using slot_init_labels[OF assms(1)] by blast
  qed
  show ?thesis unfolding lab by (rule fold_set_label_unlabeled[OF d pre])
qed

lemma global_ranking_example:
  "map_sum id (\<lambda>r. (count r, labels r 0, labels r 1, labels r 2))
     (update_evidence 2 [[((), 9 / 10 :: real, 4)], [((), 5 / 10, 2)], [((), 7 / 10, 6)]] Map.empty)
   = Inr (2, Some [4], Some [- 1], Some [6])"
  by (simp add: update_evidence_def init_Evidence_list_def write_record_def
      evidence_scores_of_def sorted_reverse_def)

text \<open>
  Claim C1. The number of promotions of a pass is to be \<open>min K n\<close> for \<open>n\<close>
  eligible records and never above the budget \<open>K\<close>. The test of line 414 comes
  after the increment of line 410, so the pass with \<open>K = 0\<close> and one eligible
  record promotes once. With \<open>1 \<le> K\<close> the count is \<open>min K n\<close>
  (\<open>promotion_count_positive_budget\<close>), and in general \<open>min (max 1 K) n\<close>
  (\<open>promotion_count\<close>).
\<close>

theorem budget_zero_promotes_one:
  "map_sum id count (update_evidence 0 [[((), 9 :: int, 5)]] Map.empty) = Inr 1"
  by (simp add: update_evidence_def init_Evidence_list_def write_record_def
      evidence_scores_of_def sorted_reverse_def)

text \<open>
  Claim C2. The promoted examples are to be the \<open>K\<close> best eligible records in
  descending order of score, ties in visiting order. The walk follows that
  order (\<open>ranked_descending\<close>, \<open>ranked_ties_in_visiting_order\<close>,
  \<open>promoted_outrank_the_rest\<close>) and takes the first \<open>max 1 K\<close> records of it
  (\<open>update_evidence_spec\<close>, \<open>still_unlabeled_after_pass\<close>): the three records of the specification with scores
  0.9, 0.5 and 0.7 give the expected labels for \<open>K = 2\<close>
  (\<open>global_ranking_example\<close>), and for \<open>K = 0\<close> the record of score 0.9 is
  promoted all the same.
\<close>

theorem ranking_budget_zero:
  "map_sum id (\<lambda>r. (count r, labels r 0, labels r 1, labels r 2))
     (update_evidence 0 [[((), 9 / 10 :: real, 4)], [((), 5 / 10, 2)], [((), 7 / 10, 6)]] Map.empty)
   = Inr (1, Some [4], Some [- 1], Some [- 1])"
  by (simp add: update_evidence_def init_Evidence_list_def write_record_def
      evidence_scores_of_def sorted_reverse_def)

text \<open>
  Claim C3 asks that an attempt to promote a labeled example fail. The walk
  meets the record of an example labeled 3 and goes on: the pass returns, the
  label is what it was and nothing is counted.
\<close>

theorem already_labeled_counterexample:
  "update_evidence 2 [[((), 9 :: int, 5)]] (Map.empty(0 \<mapsto> [3]))
   = Inr \<lparr>labels = Map.empty(0 \<mapsto> [3]), count = 0, label_prob = [], label_attention = []\<rparr>"
  by (simp add: update_evidence_def init_Evidence_list_def write_record_def
      evidence_scores_of_def sorted_reverse_def)

text \<open>
  Claim C3, as amended. A label other than \<^verbatim>\<open>-1\<close> is changed by no later step of
  the pass: the walk skips the record of a labeled example with the state
  unchanged, so without consuming the budget and without failing; whatever
  the rest of the walk does, the label keeps its value and the count does not
  decrease; and a whole pass started on a store holding the label returns it
  unchanged.
\<close>

theorem evidence_label_monotonic:
  assumes "labels st n = Some l" and "j < length l" and "l ! j \<noteq> - 1"
  shows "promote Top_k P AW (((n, j), v) # rs) st = promote Top_k P AW rs st
       \<and> (\<forall>st'. promote Top_k P AW rs st = Inr st' \<longrightarrow>
             count st \<le> count st' \<and> (\<exists>l'. labels st' n = Some l' \<and> l' ! j = l ! j))
       \<and> (\<forall>K bs res. update_evidence K (bs :: ('p \<times> 's::linorder \<times> int) list list) (labels st) = Inr (res :: ('p, 's) promotion) \<longrightarrow>
             (\<exists>l'. labels res n = Some l' \<and> l' ! j = l ! j))"
proof (intro conjI allI impI)
  show "promote Top_k P AW (((n, j), v) # rs) st = promote Top_k P AW rs st"
    using assms by simp
next
  fix st' assume "promote Top_k P AW rs st = Inr st'"
  then show "count st \<le> count st'" by (rule promote_count_mono)
next
  fix st' assume "promote Top_k P AW rs st = Inr st'"
  from promote_keeps_label[OF this assms] show "\<exists>l'. labels st' n = Some l' \<and> l' ! j = l ! j"
    by blast
next
  fix K and bs :: "('p \<times> 's \<times> int) list list" and res :: "('p, 's) promotion"
  assume "update_evidence K bs (labels st) = Inr res"
  from update_evidence_keeps_label[OF this assms] show "\<exists>l'. labels res n = Some l' \<and> l' ! j = l ! j" .
qed

theorem evidence_label_monotonic_witness:
  "promote 5 [((0, 0), ()), ((0, 1), ())] [((0, 0), (9 :: int, 5)), ((0, 1), (8, 7))]
       [((0, 0), (9, 5)), ((0, 1), (8, 7))]
       \<lparr>labels = Map.empty(0 \<mapsto> [3, - 1]), count = 0, label_prob = [], label_attention = []\<rparr>
   = promote 5 [((0, 0), ()), ((0, 1), ())] [((0, 0), (9 :: int, 5)), ((0, 1), (8, 7))]
       [((0, 1), (8, 7))]
       \<lparr>labels = Map.empty(0 \<mapsto> [3, - 1]), count = 0, label_prob = [], label_attention = []\<rparr>"
  using evidence_label_monotonic
    [of "\<lparr>labels = Map.empty(0 \<mapsto> [3, - 1]), count = 0, label_prob = [], label_attention = []\<rparr>"
        0 "[3, - 1]" 0 5 "[((0, 0), ()), ((0, 1), ())]" "[((0, 0), (9 :: int, 5)), ((0, 1), (8, 7))]"
        "(9, 5)" "[((0, 1), (8, 7))]"]
  by simp



section \<open>Properties of has\_answer\<close>










lemma regex_empty_match_raises:
  "has_answer \<lparr>tokenize_words = (\<lambda>s. [s]), re_compile = (\<lambda>_. Some ()), re_findall = (\<lambda>_ _. [Group ''''])\<rparr>
      ''CuratedTrec'' (Patterns [''x*'']) [''the'', ''cat'', ''sat''] = Inl IndexError"
  by (simp add: has_answer_def first_item_def)




text \<open>
  Claim C6. Under CuratedTrec, a pattern that \<^verbatim>\<open>re.compile\<close> rejects makes
  \<open>has_answer\<close> return \<open>(False, [])\<close>: the exception does not reach the caller.
\<close>

theorem regex_compile_failure:
  assumes "re_compile sv (''('' @ p @ '')'') = None"
  shows "has_answer sv ''CuratedTrec'' (Patterns (p # ps)) t = Inr (False, [])"
  using assms by (simp add: has_answer_def)

theorem regex_compile_failure_witness:
  "has_answer \<lparr>tokenize_words = (\<lambda>s. [s]), re_compile = (\<lambda>_. None :: unit option), re_findall = (\<lambda>_ _. [])\<rparr>
      ''CuratedTrec'' (Patterns [''[a'']) [''the'', ''cat'', ''sat''] = Inr (False, [])"
  using regex_compile_failure
     [of "\<lparr>tokenize_words = (\<lambda>s. [s]), re_compile = (\<lambda>_. None :: unit option), re_findall = (\<lambda>_ _. [])\<rparr>"
         "''[a''" "[]" "[''the'', ''cat'', ''sat'']"]
  by simp

section \<open>Properties of the HasAnswer\_Map block\<close>

lemma HasAnswer_row_result:
  assumes "HasAnswer_row inp d exs acc c = Inr (row, c')"
  shows "c' = c + length exs \<and> length row = length acc + length exs
       \<and> take (length acc) row = acc
       \<and> (\<forall>i < length exs. HasAnswer_cell inp d (exs ! i) = Inr (row ! (length acc + i)))"
  using assms
proof (induction exs arbitrary: acc c)
  case Nil
  then show ?case by simp
next
  case (Cons ex exs)
  from Cons.prems obtain r where r: "HasAnswer_cell inp d ex = Inr r"
      and rest: "HasAnswer_row inp d exs (acc @ [r]) (Suc c) = Inr (row, c')"
    by (auto split: sum.splits)
  from Cons.IH[OF rest] have ih: "c' = Suc c + length exs" "length row = length (acc @ [r]) + length exs"
      "take (length (acc @ [r])) row = acc @ [r]"
      "\<forall>i < length exs. HasAnswer_cell inp d (exs ! i) = Inr (row ! (length (acc @ [r]) + i))"
    by simp_all
  have "take (length acc) row = take (length acc) (take (length (acc @ [r])) row)"
    by (simp add: min_def)
  then have t: "take (length acc) row = acc"
    unfolding ih(3) by simp
  have first: "row ! length acc = r"
    using ih(3) by (metis nth_append_length nth_take length_append_singleton lessI)
  have cells: "\<forall>i < length (ex # exs). HasAnswer_cell inp d ((ex # exs) ! i) = Inr (row ! (length acc + i))"
  proof (intro allI impI)
    fix i assume "i < length (ex # exs)"
    show "HasAnswer_cell inp d ((ex # exs) ! i) = Inr (row ! (length acc + i))"
    proof (cases i)
      case 0
      then show ?thesis using r first by simp
    next
      case (Suc i')
      then show ?thesis using ih(4) \<open>i < length (ex # exs)\<close> by simp
    qed
  qed
  show ?case using ih(1,2) t cells by simp
qed

lemma HasAnswer_rows_result:
  assumes "HasAnswer_rows inp ds exs acc c = Inr (g, c')"
  shows "c' = c + length ds * length exs \<and> length g = length acc + length ds
       \<and> take (length acc) g = acc
       \<and> (\<forall>j < length ds. length (g ! (length acc + j)) = length exs
             \<and> (\<forall>i < length exs. HasAnswer_cell inp (ds ! j) (exs ! i) = Inr (g ! (length acc + j) ! i)))"
  using assms
proof (induction ds arbitrary: acc c)
  case Nil
  then show ?case by simp
next
  case (Cons d ds)
  from Cons.prems obtain row c1 where row: "HasAnswer_row inp d exs [] c = Inr (row, c1)"
      and rest: "HasAnswer_rows inp ds exs (acc @ [row]) c1 = Inr (g, c')"
    by (auto split: sum.splits)
  from HasAnswer_row_result[OF row] have rr: "c1 = c + length exs" "length row = length exs"
      "\<forall>i < length exs. HasAnswer_cell inp d (exs ! i) = Inr (row ! i)"
    by simp_all
  from Cons.IH[OF rest] have ih: "c' = c1 + length ds * length exs"
      "length g = length (acc @ [row]) + length ds"
      "take (length (acc @ [row])) g = acc @ [row]"
      "\<forall>j < length ds. length (g ! (length (acc @ [row]) + j)) = length exs
             \<and> (\<forall>i < length exs. HasAnswer_cell inp (ds ! j) (exs ! i) = Inr (g ! (length (acc @ [row]) + j) ! i))"
    by simp_all
  have "take (length acc) g = take (length acc) (take (length (acc @ [row])) g)"
    by (simp add: min_def)
  then have t: "take (length acc) g = acc"
    unfolding ih(3) by simp
  have first: "g ! length acc = row"
    using ih(3) by (metis nth_append_length nth_take length_append_singleton lessI)
  have cells: "\<forall>j < length (d # ds). length (g ! (length acc + j)) = length exs
             \<and> (\<forall>i < length exs. HasAnswer_cell inp ((d # ds) ! j) (exs ! i) = Inr (g ! (length acc + j) ! i))"
  proof (intro allI impI)
    fix j assume j: "j < length (d # ds)"
    show "length (g ! (length acc + j)) = length exs
             \<and> (\<forall>i < length exs. HasAnswer_cell inp ((d # ds) ! j) (exs ! i) = Inr (g ! (length acc + j) ! i))"
    proof (cases j)
      case 0
      then show ?thesis using rr first by simp
    next
      case (Suc j')
      then show ?thesis using ih(4) j by simp
    qed
  qed
  show ?case using ih(1,2) rr(1) t cells by simp
qed

lemma HasAnswer_block_hit:
  "HasAnswer_Map st idx = Some g \<Longrightarrow> HasAnswer_block inp idx ex_id st = Inr (g, st)"
  by (simp add: HasAnswer_block_def)

lemma HasAnswer_block_stored:
  assumes "HasAnswer_block inp idx ex_id st = Inr (g, st1)"
  shows "HasAnswer_Map st1 idx = Some g"
  using assms by (auto simp: HasAnswer_block_def split: option.splits sum.splits)

lemma HasAnswer_block_keeps:
  assumes "HasAnswer_block inp idx ex_id st = Inr (g, st1)" and "HasAnswer_Map st n = Some h"
  shows "HasAnswer_Map st1 n = Some h"
  using assms by (auto simp: HasAnswer_block_def split: option.splits sum.splits)

lemma HasAnswer_block_miss:
  assumes "HasAnswer_block inp idx ex_id st = Inr (g, st1)" and "HasAnswer_Map st idx = None"
  shows "matcher_calls st1 = matcher_calls st + num_docs inp * length ex_id
       \<and> length g = num_docs inp
       \<and> (\<forall>d < num_docs inp. length (g ! d) = length ex_id
             \<and> (\<forall>i < length ex_id. HasAnswer_cell inp d (ex_id ! i) = Inr (g ! d ! i)))"
proof -
  from assms obtain c where rows: "HasAnswer_rows inp [0..<num_docs inp] ex_id [] (matcher_calls st) = Inr (g, c)"
      and st1: "st1 = st\<lparr>HasAnswer_Map := (HasAnswer_Map st)(idx \<mapsto> g), matcher_calls := c\<rparr>"
    by (auto simp: HasAnswer_block_def split: sum.splits)
  from HasAnswer_rows_result[OF rows] show ?thesis
    by (simp add: st1)
qed

lemma HasAnswer_visits_keep:
  assumes "HasAnswer_visits vs st = Inr st'" and "HasAnswer_Map st n = Some h"
  shows "HasAnswer_Map st' n = Some h"
  using assms
proof (induction vs arbitrary: st)
  case Nil
  then show ?case by simp
next
  case (Cons v vs)
  from Cons.prems(1) obtain g st1 where b: "HasAnswer_block (fst v) (fst (snd v)) (snd (snd v)) st = Inr (g, st1)"
      and rest: "HasAnswer_visits vs st1 = Inr st'"
    by (auto split: sum.splits)
  from HasAnswer_block_keeps[OF b Cons.prems(2)] Cons.IH[OF rest] show ?case by simp
qed

text \<open>
  Claim C9. A visit of a batch index that returns a grid either found no grid
  stored, and then called the matcher once for each of the \<open>num_docs\<close> times
  \<open>batch_size\<close> cells, each cell of the grid being the matcher's result for
  its document and example, or found one and returned it with the state as it
  was. The grid is stored under the batch index, and after any later visits,
  whatever their inputs, a visit of the same index returns the same grid and
  leaves the state, the count of matcher calls included, unchanged.
\<close>

theorem HasAnswer_computed_once:
  assumes "HasAnswer_block inp idx ex_id st = Inr (g, st1)"
  shows "(HasAnswer_Map st idx = None \<longrightarrow>
            matcher_calls st1 = matcher_calls st + num_docs inp * length ex_id
            \<and> length g = num_docs inp
            \<and> (\<forall>d < num_docs inp. length (g ! d) = length ex_id
                  \<and> (\<forall>i < length ex_id. HasAnswer_cell inp d (ex_id ! i) = Inr (g ! d ! i))))
       \<and> (\<forall>h. HasAnswer_Map st idx = Some h \<longrightarrow> g = h \<and> st1 = st)
       \<and> HasAnswer_Map st1 idx = Some g
       \<and> (\<forall>vs st2 inp' ex_id'. HasAnswer_visits vs st1 = Inr st2 \<longrightarrow>
             HasAnswer_block inp' idx ex_id' st2 = Inr (g, st2))"
proof -
  have miss: "HasAnswer_Map st idx = None \<longrightarrow>
            matcher_calls st1 = matcher_calls st + num_docs inp * length ex_id
            \<and> length g = num_docs inp
            \<and> (\<forall>d < num_docs inp. length (g ! d) = length ex_id
                  \<and> (\<forall>i < length ex_id. HasAnswer_cell inp d (ex_id ! i) = Inr (g ! d ! i)))"
    using HasAnswer_block_miss[OF assms] by blast
  have hit: "\<forall>h. HasAnswer_Map st idx = Some h \<longrightarrow> g = h \<and> st1 = st"
    using assms by (auto simp: HasAnswer_block_def)
  have stored: "HasAnswer_Map st1 idx = Some g"
    using assms by (rule HasAnswer_block_stored)
  have later: "\<forall>vs st2 inp' ex_id'. HasAnswer_visits vs st1 = Inr st2 \<longrightarrow>
             HasAnswer_block inp' idx ex_id' st2 = Inr (g, st2)"
    using HasAnswer_visits_keep[OF _ stored] HasAnswer_block_hit by blast
  from miss hit stored later show ?thesis by (intro conjI)
qed

theorem HasAnswer_computed_once_witness:
  "HasAnswer_block
      \<lparr>services = \<lparr>tokenize_words = (\<lambda>s. [s]), re_compile = (\<lambda>_. None :: unit option), re_findall = (\<lambda>_ _. [])\<rparr>,
       dataset = ''searchqa'', num_docs = 2, exs_with_doc = [Answers [[''cat'']]],
       docs_by_question = [[[''the'', ''cat'', ''sat''], [''a'', ''dog'']]]\<rparr>
      0 [0] \<lparr>HasAnswer_Map = Map.empty, matcher_calls = 0\<rparr>
    = Inr ([[(True, [(1, 1)])], [(False, [])]],
           \<lparr>HasAnswer_Map = Map.empty(0 \<mapsto> [[(True, [(1, 1)])], [(False, [])]]), matcher_calls = 2\<rparr>)
   \<and> HasAnswer_block
      \<lparr>services = \<lparr>tokenize_words = (\<lambda>s. [s]), re_compile = (\<lambda>_. None :: unit option), re_findall = (\<lambda>_ _. [])\<rparr>,
       dataset = ''searchqa'', num_docs = 2, exs_with_doc = [Answers [[''cat'']]],
       docs_by_question = [[[''the'', ''cat'', ''sat''], [''a'', ''dog'']]]\<rparr>
      0 [0] \<lparr>HasAnswer_Map = Map.empty(0 \<mapsto> [[(True, [(1, 1)])], [(False, [])]]), matcher_calls = 2\<rparr>
    = Inr ([[(True, [(1, 1)])], [(False, [])]],
           \<lparr>HasAnswer_Map = Map.empty(0 \<mapsto> [[(True, [(1, 1)])], [(False, [])]]), matcher_calls = 2\<rparr>)"
proof -
  let ?inp = "\<lparr>services = \<lparr>tokenize_words = (\<lambda>s. [s]), re_compile = (\<lambda>_. None :: unit option), re_findall = (\<lambda>_ _. [])\<rparr>,
       dataset = ''searchqa'', num_docs = 2, exs_with_doc = [Answers [[''cat'']]],
       docs_by_question = [[[''the'', ''cat'', ''sat''], [''a'', ''dog'']]]\<rparr>"
  let ?g = "[[(True, [(1, 1)])], [(False, [])]] :: has_answer_record list list"
  let ?st1 = "\<lparr>HasAnswer_Map = Map.empty(0 \<mapsto> ?g), matcher_calls = 2\<rparr>"
  have up: "[0..<2] = [0, 1]" by (simp add: upt_conv_Cons)
  have first: "HasAnswer_block ?inp 0 [0] \<lparr>HasAnswer_Map = Map.empty, matcher_calls = 0\<rparr> = Inr (?g, ?st1)"
    by (simp add: HasAnswer_block_def HasAnswer_cell_def list_index_def has_answer_def
        find_windows_def lower_def lower_char_def up)
  have "HasAnswer_visits [] ?st1 = Inr ?st1" by simp
  with HasAnswer_computed_once[OF first] have "HasAnswer_block ?inp 0 [0] ?st1 = Inr (?g, ?st1)"
    by blast
  with first show ?thesis by simp
qed

section \<open>Properties of the vote\<close>

lemma py_index_out_of_range:
  "int (length xs) \<le> j \<Longrightarrow> py_index xs j = Inl IndexError"
  by (simp add: py_index_def Let_def)

lemma py_index_error: "py_index xs j = Inl e \<Longrightarrow> e = IndexError"
  by (simp add: py_index_def Let_def split: if_splits)

lemma span_tokens_out_of_range:
  assumes "\<exists>j \<in> set js. int (length doc) \<le> j"
  shows "span_tokens doc js acc = Inl IndexError"
  using assms
proof (induction js arbitrary: acc)
  case Nil
  then show ?case by simp
next
  case (Cons j js)
  show ?case
  proof (cases "py_index doc j")
    case (Inl e)
    then show ?thesis using py_index_error[OF Inl] by simp
  next
    case (Inr w)
    then have "\<not> int (length doc) \<le> j" using py_index_out_of_range[of doc j] by auto
    then have "\<exists>j \<in> set js. int (length doc) \<le> j" using Cons.prems by auto
    then show ?thesis using Cons.IH Inr by simp
  qed
qed

lemma surface_out_of_range:
  assumes "s \<le> e" and "int (length doc) \<le> e"
  shows "surface doc (s, e, sc) = None"
proof -
  have "e \<in> set [s..e]" using assms(1) by simp
  then have "span_tokens doc [s..e] [] = Inl IndexError"
    using assms(2) by (intro span_tokens_out_of_range) blast
  then show ?thesis by (simp add: surface_def)
qed

lemma vote_eq:
  "vote d ds c sc = (case surface d c of None \<Rightarrow> sc | Some s \<Rightarrow> add_vote (s, snd (snd c) * ds) sc)"
proof (cases "span_tokens d [fst c..fst (snd c)] []")
  case (Inl e)
  then show ?thesis by (simp add: vote_def surface_def)
next
  case (Inr toks)
  let ?s = "lower (join_sp toks)"
  show ?thesis
  proof (cases "?s \<in> set (map fst sc)")
    case True
    then obtain v where "map_of sc ?s = Some v"
      by (metis map_of_eq_None_iff not_Some_eq set_map)
    then show ?thesis using Inr True
      by (simp add: vote_def surface_def add_vote_def Let_def)
  next
    case False
    then have "map_of sc ?s = None" by (simp add: map_of_eq_None_iff)
    then show ?thesis using Inr False
      by (simp add: vote_def surface_def add_vote_def Let_def AList.update_conv')
  qed
qed

lemma fold_vote_eq:
  "fold (vote d ds) cs sc =
   fold add_vote (concat (map (\<lambda>c. case surface d c of None \<Rightarrow> [] | Some s \<Rightarrow> [(s, snd (snd c) * ds)]) cs)) sc"
  by (induction cs arbitrary: sc) (simp_all add: vote_eq split: option.splits)

lemma vote_doc_eq: "vote_doc d sc = fold add_vote (doc_votes d) sc"
  by (simp add: vote_doc_def doc_votes_def fold_vote_eq)

lemma fold_vote_doc_eq: "fold vote_doc docs sc = fold add_vote (concat (map doc_votes docs)) sc"
  by (induction docs arbitrary: sc) (simp_all add: vote_doc_eq)

lemma vote_example_eq: "vote_example docs = fold add_vote (candidate_votes docs) []"
  by (simp add: vote_example_def candidate_votes_def fold_vote_doc_eq)

lemma map_of_add_vote:
  "map_of (add_vote p sc) k =
     (if k = fst p then Some ((case map_of sc k of None \<Rightarrow> 0 | Some v \<Rightarrow> v) + snd p) else map_of sc k)"
  by (simp add: add_vote_def AList.update_conv')

lemma keys_add_vote:
  "map fst (add_vote p sc) = (if fst p \<in> set (map fst sc) then map fst sc else map fst sc @ [fst p])"
  by (simp add: add_vote_def update_keys)

lemma total_vote_Cons:
  "total_vote (p # cv) k = (if fst p = k then snd p else 0) + total_vote cv k"
  by (simp add: total_vote_def)

lemma total_vote_absent: "k \<notin> fst ` set cv \<Longrightarrow> total_vote cv k = 0"
proof -
  assume "k \<notin> fst ` set cv"
  then have "filter (\<lambda>p. fst p = k) cv = []" by (auto simp: filter_empty_conv)
  then show ?thesis by (simp add: total_vote_def)
qed

lemma map_of_tally:
  "map_of (fold add_vote cv sc) k =
     (if k \<in> fst ` set cv then Some ((case map_of sc k of None \<Rightarrow> 0 | Some v \<Rightarrow> v) + total_vote cv k)
      else map_of sc k)"
proof (induction cv arbitrary: sc)
  case Nil
  then show ?case by simp
next
  case (Cons p cv)
  have step: "map_of (fold add_vote (p # cv) sc) k =
     (if k \<in> fst ` set cv
      then Some ((case map_of (add_vote p sc) k of None \<Rightarrow> 0 | Some v \<Rightarrow> v) + total_vote cv k)
      else map_of (add_vote p sc) k)"
    by (simp add: Cons.IH)
  show ?case
  proof (cases "k = fst p")
    case True
    then show ?thesis
      unfolding step by (simp add: map_of_add_vote total_vote_Cons total_vote_absent)
  next
    case False
    then have "fst p \<noteq> k" by auto
    then show ?thesis
      unfolding step using False by (simp add: map_of_add_vote total_vote_Cons)
  qed
qed

lemma keys_tally:
  "map fst (fold add_vote cv sc) =
     map fst sc @ filter (\<lambda>k. k \<notin> set (map fst sc)) (first_seen (map fst cv))"
proof (induction cv arbitrary: sc)
  case Nil
  then show ?case by simp
next
  case (Cons p cv)
  let ?fs = "first_seen (map fst cv)"
  show ?case
  proof (cases "fst p \<in> set (map fst sc)")
    case True
    have "filter (\<lambda>k. k \<notin> set (map fst sc)) (filter (\<lambda>y. y \<noteq> fst p) ?fs)
        = filter (\<lambda>k. k \<notin> set (map fst sc)) ?fs"
      unfolding filter_filter using True by (intro filter_cong refl) auto
    then show ?thesis using True by (simp add: Cons.IH keys_add_vote)
  next
    case False
    have "filter (\<lambda>k. k \<notin> set (map fst sc @ [fst p])) ?fs
        = filter (\<lambda>k. k \<notin> set (map fst sc)) (filter (\<lambda>y. y \<noteq> fst p) ?fs)"
      unfolding filter_filter by (intro filter_cong refl) auto
    then show ?thesis using False by (simp add: Cons.IH keys_add_vote)
  qed
qed

lemma distinct_first_seen: "distinct (first_seen xs)"
  by (induction xs) simp_all

lemma keys_vote_example: "map fst (vote_example docs) = first_seen (map fst (candidate_votes docs))"
  by (simp add: vote_example_eq keys_tally)

lemma map_of_vote_example:
  "map_of (vote_example docs) k =
     (if k \<in> fst ` set (candidate_votes docs) then Some (total_vote (candidate_votes docs) k) else None)"
  by (simp add: vote_example_eq map_of_tally)

lemma best_fold:
  fixes scores :: scores
  shows "((\<forall>x \<in> set scores. snd x \<le> b0) \<longrightarrow>
            fold (\<lambda>kv best. if fst best < snd kv then (snd kv, fst kv) else best) scores (b0, p0) = (b0, p0))
       \<and> (\<not> (\<forall>x \<in> set scores. snd x \<le> b0) \<longrightarrow>
            (\<exists>pre p m post. scores = pre @ (p, m) # post
             \<and> fold (\<lambda>kv best. if fst best < snd kv then (snd kv, fst kv) else best) scores (b0, p0) = (m, p)
             \<and> b0 < m \<and> (\<forall>x \<in> set pre. snd x < m) \<and> (\<forall>x \<in> set post. snd x \<le> m)))"
proof (induction scores arbitrary: b0 p0)
  case Nil
  then show ?case by simp
next
  case (Cons x xs)
  let ?step = "\<lambda>kv best. if fst best < snd kv then (snd kv, fst kv) else (best :: real \<times> string)"
  show ?case
  proof (cases "b0 < snd x")
    case True
    then have st: "fold ?step (x # xs) (b0, p0) = fold ?step xs (snd x, fst x)" by simp
    have nall: "\<not> (\<forall>y \<in> set (x # xs). snd y \<le> b0)" using True by auto
    have "\<exists>pre p m post. x # xs = pre @ (p, m) # post \<and> fold ?step (x # xs) (b0, p0) = (m, p)
          \<and> b0 < m \<and> (\<forall>y \<in> set pre. snd y < m) \<and> (\<forall>y \<in> set post. snd y \<le> m)"
    proof (cases "\<forall>y \<in> set xs. snd y \<le> snd x")
      case all: True
      with Cons.IH[of "snd x" "fst x"] have "fold ?step xs (snd x, fst x) = (snd x, fst x)"
        by blast
      then have "x # xs = [] @ (fst x, snd x) # xs \<and> fold ?step (x # xs) (b0, p0) = (snd x, fst x)
          \<and> b0 < snd x \<and> (\<forall>y \<in> set []. snd y < snd x) \<and> (\<forall>y \<in> set xs. snd y \<le> snd x)"
        using st True all by simp
      then show ?thesis by blast
    next
      case False
      with Cons.IH[of "snd x" "fst x"] obtain pre p m post where h: "xs = pre @ (p, m) # post"
          "fold ?step xs (snd x, fst x) = (m, p)" "snd x < m"
          "\<forall>y \<in> set pre. snd y < m" "\<forall>y \<in> set post. snd y \<le> m"
        by blast
      have "x # xs = (x # pre) @ (p, m) # post" using h(1) by simp
      moreover have "fold ?step (x # xs) (b0, p0) = (m, p)" using st h(2) by (simp only:)
      moreover have "b0 < m" using True h(3) by simp
      moreover have "\<forall>y \<in> set (x # pre). snd y < m" using h(3,4) by simp
      ultimately show ?thesis using h(5) by blast
    qed
    then show ?thesis using nall by blast
  next
    case le: False
    then have st: "fold ?step (x # xs) (b0, p0) = fold ?step xs (b0, p0)" by simp
    show ?thesis
    proof (cases "\<forall>y \<in> set xs. snd y \<le> b0")
      case True
      with Cons.IH[of b0 p0] have "fold ?step xs (b0, p0) = (b0, p0)" by blast
      moreover have "\<forall>y \<in> set (x # xs). snd y \<le> b0" using True le by auto
      ultimately show ?thesis using st by (simp only:) blast
    next
      case False
      with Cons.IH[of b0 p0] obtain pre p m post where h: "xs = pre @ (p, m) # post"
          "fold ?step xs (b0, p0) = (m, p)" "b0 < m"
          "\<forall>y \<in> set pre. snd y < m" "\<forall>y \<in> set post. snd y \<le> m"
        by blast
      have "x # xs = (x # pre) @ (p, m) # post" using h(1) by simp
      moreover have "fold ?step (x # xs) (b0, p0) = (m, p)" using st h(2) by (simp only:)
      moreover have "\<forall>y \<in> set (x # pre). snd y < m" using h(3,4) le by simp
      moreover have "\<not> (\<forall>y \<in> set (x # xs). snd y \<le> b0)" using False by auto
      ultimately show ?thesis using h(3,5) by blast
    qed
  qed
qed

lemma best_prediction_none:
  assumes "\<forall>x \<in> set scores. snd x \<le> 0"
  shows "best_prediction scores = []"
proof -
  from best_fold[of scores 0 "[]"] assms
  have "fold (\<lambda>kv best. if fst best < snd kv then (snd kv, fst kv) else best) scores (0, []) = (0, [])"
    by blast
  then show ?thesis by (simp add: best_prediction_def)
qed

lemma best_prediction_some:
  assumes "\<not> (\<forall>x \<in> set scores. snd x \<le> 0)"
  shows "\<exists>pre m post. scores = pre @ (best_prediction scores, m) # post
             \<and> 0 < m \<and> (\<forall>x \<in> set pre. snd x < m) \<and> (\<forall>x \<in> set post. snd x \<le> m)"
proof -
  from best_fold[of scores 0 "[]"] assms obtain pre p m post where h: "scores = pre @ (p, m) # post"
      "fold (\<lambda>kv best. if fst best < snd kv then (snd kv, fst kv) else best) scores (0, []) = (m, p)"
      "0 < m" "\<forall>x \<in> set pre. snd x < m" "\<forall>x \<in> set post. snd x \<le> m"
    by blast
  then have "best_prediction scores = p" by (simp add: best_prediction_def)
  then show ?thesis using h by blast
qed

lemma vote_example_entry:
  assumes "(k, v) \<in> set (vote_example docs)"
  shows "k \<in> fst ` set (candidate_votes docs) \<and> v = total_vote (candidate_votes docs) k"
proof -
  have "distinct (map fst (vote_example docs))"
    by (simp add: keys_vote_example distinct_first_seen)
  then have "map_of (vote_example docs) k = Some v"
    using assms by (rule map_of_is_SomeI)
  then show ?thesis
    by (simp add: map_of_vote_example split: if_splits)
qed

lemma vote_example_has_entry:
  assumes "k \<in> fst ` set (candidate_votes docs)"
  shows "(k, total_vote (candidate_votes docs) k) \<in> set (vote_example docs)"
proof -
  have "map_of (vote_example docs) k = Some (total_vote (candidate_votes docs) k)"
    using assms by (simp add: map_of_vote_example)
  then show ?thesis by (rule map_of_SomeD)
qed

lemma fold_vote_skip:
  assumes "vote d ds c = id"
  shows "fold (vote d ds) (cs1 @ c # cs2) sc = fold (vote d ds) (cs1 @ cs2) sc"
  using assms by simp

text \<open>
  Claim C7 asks for the key of the greatest accumulated vote whatever the
  votes are. One candidate \<open>Paris\<close> of span score 0 leaves the only key
  \<open>paris\<close> with the vote 0, and the answer is the empty string, which is no key.
\<close>

theorem zero_vote_counterexample:
  "vote_example [([''Paris''], 1 / 2, [(0, 0, 0)])] = [(''paris'', 0)]
   \<and> aggregate [([''Paris''], 1 / 2, [(0, 0, 0)])] = ''''"
  by (simp add: aggregate_def vote_example_def vote_doc_def vote_def py_index_def lower_def lower_char_def
      best_prediction_def)

text \<open>
  Claim C7, as amended. The dictionary of an example holds, for each surface
  string of a candidate in range, the sum of span score times document score
  over the candidates with that string, whatever their documents, and lists
  the strings in the order they were first seen. When some string has an
  accumulated vote above 0, the answer is a string of the greatest vote, and
  the first of them in that order: every string seen before it has a smaller
  vote, every string seen after it none greater.
\<close>

theorem aggregate_max_vote:
  assumes "\<exists>k \<in> fst ` set (candidate_votes docs). 0 < total_vote (candidate_votes docs) k"
  shows "(\<forall>k. map_of (vote_example docs) k =
            (if k \<in> fst ` set (candidate_votes docs) then Some (total_vote (candidate_votes docs) k) else None))
       \<and> map fst (vote_example docs) = first_seen (map fst (candidate_votes docs))
       \<and> (\<exists>pre post. first_seen (map fst (candidate_votes docs)) = pre @ aggregate docs # post
            \<and> 0 < total_vote (candidate_votes docs) (aggregate docs)
            \<and> (\<forall>k \<in> set pre. total_vote (candidate_votes docs) k < total_vote (candidate_votes docs) (aggregate docs))
            \<and> (\<forall>k \<in> set post. total_vote (candidate_votes docs) k \<le> total_vote (candidate_votes docs) (aggregate docs)))"
proof -
  let ?cv = "candidate_votes docs" and ?sc = "vote_example docs"
  from assms obtain k0 where k0: "k0 \<in> fst ` set ?cv" "0 < total_vote ?cv k0" by blast
  from vote_example_has_entry[OF k0(1)] k0(2) have "\<not> (\<forall>x \<in> set ?sc. snd x \<le> 0)"
    by force
  from best_prediction_some[OF this] obtain pre m post where h:
      "?sc = pre @ (best_prediction ?sc, m) # post" "0 < m"
      "\<forall>x \<in> set pre. snd x < m" "\<forall>x \<in> set post. snd x \<le> m"
    by blast
  have agg: "aggregate docs = best_prediction ?sc" by (simp add: aggregate_def)
  have "(aggregate docs, m) \<in> set ?sc" using h(1) agg by (metis in_set_conv_decomp)
  from vote_example_entry[OF this] have m: "m = total_vote ?cv (aggregate docs)" by simp
  have keys: "first_seen (map fst ?cv) = map fst pre @ aggregate docs # map fst post"
    using keys_vote_example[of docs] h(1) agg
    by (metis (no_types, lifting) fst_conv list.simps(9) map_append)
  have pre: "\<forall>k \<in> set (map fst pre). total_vote ?cv k < total_vote ?cv (aggregate docs)"
  proof
    fix k assume "k \<in> set (map fst pre)"
    then obtain v where kv: "(k, v) \<in> set pre" by auto
    then have "(k, v) \<in> set ?sc" using h(1) by (metis Un_iff set_append)
    from vote_example_entry[OF this] kv h(3) show "total_vote ?cv k < total_vote ?cv (aggregate docs)"
      unfolding m[symmetric] by auto
  qed
  have post: "\<forall>k \<in> set (map fst post). total_vote ?cv k \<le> total_vote ?cv (aggregate docs)"
  proof
    fix k assume "k \<in> set (map fst post)"
    then obtain v where kv: "(k, v) \<in> set post" by auto
    then have "(k, v) \<in> set ?sc" using h(1) by (metis Un_iff list.set_intros(2) set_append)
    from vote_example_entry[OF this] kv h(4) show "total_vote ?cv k \<le> total_vote ?cv (aggregate docs)"
      unfolding m[symmetric] by auto
  qed
  have "\<exists>pre post. first_seen (map fst ?cv) = pre @ aggregate docs # post
            \<and> 0 < total_vote ?cv (aggregate docs)
            \<and> (\<forall>k \<in> set pre. total_vote ?cv k < total_vote ?cv (aggregate docs))
            \<and> (\<forall>k \<in> set post. total_vote ?cv k \<le> total_vote ?cv (aggregate docs))"
    using keys pre post h(2) m by blast
  then show ?thesis
    using map_of_vote_example[of docs] keys_vote_example[of docs] by (intro conjI allI)
qed

theorem aggregate_max_vote_witness:
  "aggregate [([''Paris''], 1, [(0, 0, 8 / 10)]), ([''paris''], 1, [(0, 0, 3 / 10)]), ([''Lyon''], 1, [(0, 0, 5 / 10)])] = ''paris''
   \<and> map_of (vote_example [([''Paris''], 1, [(0, 0, 8 / 10)]), ([''paris''], 1, [(0, 0, 3 / 10)]), ([''Lyon''], 1, [(0, 0, 5 / 10)])]) ''paris''
       = Some (11 / 10)
   \<and> map fst (vote_example [([''Paris''], 1, [(0, 0, 8 / 10)]), ([''paris''], 1, [(0, 0, 3 / 10)]), ([''Lyon''], 1, [(0, 0, 5 / 10)])])
       = [''paris'', ''lyon'']"
proof -
  let ?docs = "[([''Paris''], 1, [(0, 0, 8 / 10)]), ([''paris''], 1, [(0, 0, 3 / 10)]), ([''Lyon''], 1, [(0, 0, 5 / 10)])]
      :: (string list \<times> real \<times> (int \<times> int \<times> real) list) list"
  have cv: "candidate_votes ?docs = [(''paris'', 8 / 10), (''paris'', 3 / 10), (''lyon'', 5 / 10)]"
    by (simp add: candidate_votes_def doc_votes_def surface_def py_index_def lower_def lower_char_def)
  have pos: "\<exists>k \<in> fst ` set (candidate_votes ?docs). 0 < total_vote (candidate_votes ?docs) k"
    unfolding cv by (simp add: total_vote_def)
  have agg: "aggregate ?docs = ''paris''"
    by (simp add: aggregate_def vote_example_def vote_doc_def vote_def py_index_def lower_def lower_char_def
        best_prediction_def)
  from aggregate_max_vote[OF pos] have
    "map_of (vote_example ?docs) ''paris'' = Some (total_vote (candidate_votes ?docs) ''paris'')"
    "map fst (vote_example ?docs) = first_seen (map fst (candidate_votes ?docs))"
    unfolding cv by simp_all
  then show ?thesis using agg unfolding cv by (simp add: total_vote_def)
qed

lemma reversed_span_votes_empty_string:
  assumes "e < s"
  shows "vote doc_text doc_score (s, e, sc) scores = add_vote ('''', sc * doc_score) scores"
  using assms by (simp add: vote_eq surface_def lower_def)

text \<open>
  Claim C8 asks that every candidate whose indices lie beyond the document be
  skipped. The pair \<open>(50, 49)\<close> against a document of ten tokens gives an empty
  range: no index is read, nothing is raised, and the candidate votes for the
  empty string.
\<close>

theorem reversed_span_counterexample:
  "vote [''a'', ''b'', ''c'', ''d'', ''e'', ''f'', ''g'', ''h'', ''i'', ''j''] 1 (50, 49, 5 / 8) [] = [('''', 5 / 8)]
   \<and> vote_example [([''a'', ''b'', ''c'', ''d'', ''e'', ''f'', ''g'', ''h'', ''i'', ''j''], 1, [(0, 0, 1 / 2), (50, 49, 5 / 8)])]
       = [(''a'', 1 / 2), ('''', 5 / 8)]"
  by (simp add: vote_example_def vote_doc_def vote_def py_index_def lower_def lower_char_def)

text \<open>
  Claim C8, as amended. A candidate span \<open>(s, e)\<close> with \<open>s \<le> e\<close> whose end lies
  beyond the document leaves the dictionary as it was, and the loop over the
  candidates of the document gives what it gives without that candidate:
  nothing is raised and the other candidates are counted. The witness is the
  span \<open>(50, 52)\<close> against a document of ten tokens.
\<close>

theorem out_of_range_candidate_skipped:
  assumes "s \<le> e" and "int (length doc_text) \<le> e"
  shows "vote doc_text doc_score (s, e, sc) scores = scores
       \<and> fold (vote doc_text doc_score) (cs1 @ (s, e, sc) # cs2) scores
            = fold (vote doc_text doc_score) (cs1 @ cs2) scores
       \<and> (length cs1 + length cs2 < 10 \<longrightarrow>
            vote_doc (doc_text, doc_score, cs1 @ (s, e, sc) # cs2) scores
              = vote_doc (doc_text, doc_score, cs1 @ cs2) scores)"
proof -
  have skip: "vote doc_text doc_score (s, e, sc) = id"
    using surface_out_of_range[OF assms] by (simp add: vote_eq fun_eq_iff)
  have f: "fold (vote doc_text doc_score) (cs1 @ (s, e, sc) # cs2) scores
            = fold (vote doc_text doc_score) (cs1 @ cs2) scores"
    using skip by (rule fold_vote_skip)
  have "length cs1 + length cs2 < 10 \<longrightarrow>
            vote_doc (doc_text, doc_score, cs1 @ (s, e, sc) # cs2) scores
              = vote_doc (doc_text, doc_score, cs1 @ cs2) scores"
    using f by (simp add: vote_doc_def)
  then show ?thesis using skip f by simp
qed

theorem out_of_range_candidate_skipped_witness:
  "vote_doc ([''a'', ''b'', ''c'', ''d'', ''e'', ''f'', ''g'', ''h'', ''i'', ''j''], 1, [(50, 52, 9 / 10), (0, 0, 1 / 2)]) []
     = vote_doc ([''a'', ''b'', ''c'', ''d'', ''e'', ''f'', ''g'', ''h'', ''i'', ''j''], 1, [(0, 0, 1 / 2)]) []
   \<and> vote [''a'', ''b'', ''c'', ''d'', ''e'', ''f'', ''g'', ''h'', ''i'', ''j''] 1 (50, 52, 9 / 10) [(''a'', 1 / 2)]
     = [(''a'', 1 / 2)]"
  using out_of_range_candidate_skipped
    [of 50 52 "[''a'', ''b'', ''c'', ''d'', ''e'', ''f'', ''g'', ''h'', ''i'', ''j'']" 1 "9 / 10" "[]" "[]" "[(0, 0, 1 / 2)]"]
    out_of_range_candidate_skipped
    [of 50 52 "[''a'', ''b'', ''c'', ''d'', ''e'', ''f'', ''g'', ''h'', ''i'', ''j'']" 1 "9 / 10" "[(''a'', 1 / 2)]" "[]" "[]"]
  by simp

text \<open>
  Claim C10. When no entry of the dictionary has a vote above 0, the answer is
  the empty string; so it is when no surface string has an accumulated vote
  above 0, and in particular when no candidate was in range.
\<close>

theorem no_positive_vote_empty_answer:
  "((\<forall>x \<in> set scores. snd x \<le> 0) \<longrightarrow> best_prediction scores = '''')
   \<and> ((\<forall>k \<in> fst ` set (candidate_votes docs). total_vote (candidate_votes docs) k \<le> 0) \<longrightarrow>
        aggregate docs = '''')"
proof (intro conjI impI)
  assume "\<forall>x \<in> set scores. snd x \<le> 0"
  then show "best_prediction scores = ''''" by (rule best_prediction_none)
next
  assume a: "\<forall>k \<in> fst ` set (candidate_votes docs). total_vote (candidate_votes docs) k \<le> 0"
  have "\<forall>x \<in> set (vote_example docs). snd x \<le> 0"
  proof
    fix x assume "x \<in> set (vote_example docs)"
    then have "(fst x, snd x) \<in> set (vote_example docs)" by simp
    from vote_example_entry[OF this] a show "snd x \<le> 0" by auto
  qed
  then show "aggregate docs = ''''"
    unfolding aggregate_def by (rule best_prediction_none)
qed

theorem no_positive_vote_empty_answer_witness:
  "best_prediction [(''paris'', 0), (''lyon'', - 1)] = ''''
   \<and> aggregate [([''Paris''], 1 / 2, [(0, 0, 0), (7, 9, 1)])] = ''''"
proof -
  let ?docs = "[([''Paris''], 1 / 2, [(0, 0, 0), (7, 9, 1)])] :: (string list \<times> real \<times> (int \<times> int \<times> real) list) list"
  have s79: "span_tokens [''Paris''] [7..9] [] = Inl IndexError"
    by (rule span_tokens_out_of_range) simp
  have cv: "candidate_votes ?docs = [(''paris'', 0)]"
    by (simp add: candidate_votes_def doc_votes_def surface_def py_index_def lower_def lower_char_def s79)
  have "\<forall>k \<in> fst ` set (candidate_votes ?docs). total_vote (candidate_votes ?docs) k \<le> 0"
    unfolding cv by (simp add: total_vote_def)
  moreover have "\<forall>x \<in> set [(''paris'', 0 :: real), (''lyon'', - 1)]. snd x \<le> 0" by simp
  ultimately show ?thesis
    using no_positive_vote_empty_answer[of "[(''paris'', 0), (''lyon'', - 1)]" ?docs] by blast
qed

end
